theory Spec2Isabelle
  imports Complex_Main
begin

section \<open>TaigiCC: the dictionary converter of \<^verbatim>\<open>main.py\<close>\<close>

text \<open>
  The development embeds the class \<^verbatim>\<open>Converter\<close> of \<^verbatim>\<open>src/main.py\<close>: the
  constructor that builds the two indexes from the parsed dictionary, the scorer
  \<^verbatim>\<open>calculate_weight\<close>, the candidate search \<^verbatim>\<open>find_best_match\<close> and the scan
  \<^verbatim>\<open>convert\<close>.

  \<^item> A Python \<^verbatim>\<open>str\<close> is a sequence of code points; it is a list over a type
    \<open>'c\<close> of code points, so \<open>length\<close>, \<open>take\<close> and \<open>drop\<close> count code points as
    \<^verbatim>\<open>len\<close> and slicing do. Concrete inputs are written over \<open>char\<close>.
  \<^item> A Python \<^verbatim>\<open>float\<close> is an IEEE 754 double: not a number, one of the two
    infinities, or a finite value. The arithmetic of the scorer rounds every result to
    the nearest double, ties to the even mantissa, and comparisons with not a number
    are false. The two zeros of the format are one value \<open>Finite 0\<close>: the program only
    adds and compares, which does not tell them apart.
  \<^item> The values of a dictionary document have the types of the data model: strings
    under the two text keys, a float under the weight key (\<^verbatim>\<open>json.load\<close> also yields
    the infinities and not a number); a key may be absent. A weight written as an
    integer within the range of the doubles is converted by the scorer's addition to
    the nearest double, and is modelled as that double.
  \<^item> A raised exception is the left injection of a sum.
\<close>

subsection \<open>Python floats\<close>

text \<open>
  The values of a double. \<open>Finite x\<close> is used at the real numbers \<open>x\<close> that a double
  represents; the operations below return only such values.
\<close>

datatype pyfloat = NaN | NInf | PInf | Finite real

text \<open>Rounding to the nearest integer, a tie to the even one.\<close>

definition round_half_even :: "real \<Rightarrow> int" where
  "round_half_even x =
     (let f = \<lfloor>x\<rfloor>; d = x - of_int f
      in if d < 1 / 2 then f
         else if 1 / 2 < d then f + 1
         else if even f then f else f + 1)"

text \<open>
  The unit in the last place of a positive \<open>x\<close>: \<open>2 ^ (e - 52)\<close> for the exponent \<open>e\<close>
  of \<open>x\<close>, which is \<open>-1022\<close> for every \<open>x\<close> below \<open>2 ^ -1022\<close> (the subnormal numbers).
  \<open>ulp_up\<close> halves an \<open>x\<close> of at least \<open>1\<close> until it is below \<open>2\<close>, \<open>ulp_down\<close> doubles an
  \<open>x\<close> below \<open>1\<close> until it is at least \<open>1\<close>, at most \<open>1022\<close> times.
\<close>

fun ulp_up :: "nat \<Rightarrow> real \<Rightarrow> real" where
  "ulp_up 0 x = 1 / 2 ^ 52"
| "ulp_up (Suc k) x = (if x < 2 then 1 / 2 ^ 52 else 2 * ulp_up k (x / 2))"

fun ulp_down :: "nat \<Rightarrow> real \<Rightarrow> real" where
  "ulp_down 0 x = 1 / 2 ^ 52"
| "ulp_down (Suc k) x = (if 1 \<le> x then 1 / 2 ^ 52 else ulp_down k (2 * x) / 2)"

definition ulp :: "real \<Rightarrow> real" where
  "ulp x = (if 1 \<le> x then ulp_up 1024 x else ulp_down 1022 x)"

text \<open>
  The double nearest to a real number: the nearest multiple of the unit in the last
  place, an infinity when that is \<open>2 ^ 1024\<close> or more.
\<close>

definition round_double :: "real \<Rightarrow> pyfloat" where
  "round_double x =
     (if x = 0 then Finite 0
      else let m = of_int (round_half_even (\<bar>x\<bar> / ulp \<bar>x\<bar>)) * ulp \<bar>x\<bar>
           in if 2 ^ 1024 \<le> m then (if 0 < x then PInf else NInf)
              else Finite (if 0 < x then m else - m))"

text \<open>\<^verbatim>\<open>x + y\<close>, \<^verbatim>\<open>x * y\<close> and \<^verbatim>\<open>x > y\<close> on floats.\<close>

fun fadd :: "pyfloat \<Rightarrow> pyfloat \<Rightarrow> pyfloat" where
  "fadd NaN y = NaN"
| "fadd x NaN = NaN"
| "fadd PInf NInf = NaN"
| "fadd NInf PInf = NaN"
| "fadd PInf y = PInf"
| "fadd x PInf = PInf"
| "fadd NInf y = NInf"
| "fadd x NInf = NInf"
| "fadd (Finite a) (Finite b) = round_double (a + b)"

fun fmul :: "pyfloat \<Rightarrow> pyfloat \<Rightarrow> pyfloat" where
  "fmul NaN y = NaN"
| "fmul x NaN = NaN"
| "fmul (Finite a) (Finite b) = round_double (a * b)"
| "fmul (Finite a) PInf = (if a = 0 then NaN else if 0 < a then PInf else NInf)"
| "fmul (Finite a) NInf = (if a = 0 then NaN else if 0 < a then NInf else PInf)"
| "fmul PInf (Finite b) = (if b = 0 then NaN else if 0 < b then PInf else NInf)"
| "fmul NInf (Finite b) = (if b = 0 then NaN else if 0 < b then NInf else PInf)"
| "fmul PInf PInf = PInf"
| "fmul NInf NInf = PInf"
| "fmul PInf NInf = NInf"
| "fmul NInf PInf = NInf"

fun fgt :: "pyfloat \<Rightarrow> pyfloat \<Rightarrow> bool" where
  "fgt NaN y = False"
| "fgt x NaN = False"
| "fgt NInf y = False"
| "fgt x NInf = True"
| "fgt x PInf = False"
| "fgt PInf y = True"
| "fgt (Finite a) (Finite b) = (b < a)"

text \<open>
  The conversion of an \<^verbatim>\<open>int\<close> operand of a float operation, and the literal
  \<^verbatim>\<open>0.1\<close>, the double \<open>3602879701896397 / 2 ^ 55\<close>.
\<close>

definition float_of_nat :: "nat \<Rightarrow> pyfloat" where
  "float_of_nat n = round_double (of_nat n)"

definition float_0_1 :: pyfloat where
  "float_0_1 = Finite (3602879701896397 / 2 ^ 55)"

subsection \<open>Data\<close>

type_synonym 'c str = "'c list"

text \<open>
  One element of \<^verbatim>\<open>data['entries']\<close>: a JSON object whose three keys may each be
  absent. \<open>f_tw\<close> is the value under the Taiwanese-text key, \<open>f_cn\<close> the value under
  the Mandarin-text key, \<open>f_weight\<close> the value under the weight key.
\<close>

record 'c entry =
  f_tw :: "'c str option"
  f_cn :: "'c str option"
  f_weight :: "pyfloat option"

text \<open>The parsed JSON document \<^verbatim>\<open>data\<close>.\<close>

record 'c payload =
  p_dict_version :: "int option"
  p_entries :: "'c entry list option"

type_synonym 'c index = "'c str \<rightharpoonup> ('c str \<times> pyfloat) list"

record 'c Converter =
  dict_version :: int
  entries :: "'c entry list"
  tw_to_zh :: "'c index"
  zh_to_tw :: "'c index"

datatype field = Tw | Cn

text \<open>
  \<open>KeyError\<close> is raised by \<^verbatim>\<open>entry[...]\<close> on an absent key, \<open>ValueError\<close> by
  \<^verbatim>\<open>convert\<close> on an unknown mode, \<open>TypeError\<close> by \<^verbatim>\<open>''.join\<close> on an element that
  is \<^verbatim>\<open>None\<close>.
\<close>

datatype error = KeyError field | ValueError string | TypeError

abbreviation MalformedEntry :: "field \<Rightarrow> error" where
  "MalformedEntry \<equiv> KeyError"

abbreviation UnsupportedDirection :: "string \<Rightarrow> error" where
  "UnsupportedDirection \<equiv> ValueError"

subsection \<open>The constructor\<close>

text \<open>
  \<^verbatim>\<open>if k not in d: d[k] = []\<close> followed by \<^verbatim>\<open>d[k].append(v)\<close>.
\<close>

definition append_candidate :: "'c index \<Rightarrow> 'c str \<Rightarrow> 'c str \<times> pyfloat \<Rightarrow> 'c index" where
  "append_candidate d k v = d(k \<mapsto> (case d k of None \<Rightarrow> [] | Some vs \<Rightarrow> vs) @ [v])"

text \<open>The body of \<^verbatim>\<open>for entry in self.entries\<close>, on the pair of indexes.\<close>

definition init_entry ::
  "'c index \<times> 'c index \<Rightarrow> 'c entry \<Rightarrow> error + ('c index \<times> 'c index)" where
  "init_entry s entry =
     (case f_tw entry of
        None \<Rightarrow> Inl (KeyError Tw)
      | Some tw \<Rightarrow>
          (case f_cn entry of
             None \<Rightarrow> Inl (KeyError Cn)
           | Some cn \<Rightarrow>
               (let weight = (case f_weight entry of None \<Rightarrow> Finite 0 | Some w \<Rightarrow> w)
                in Inr (append_candidate (fst s) tw (cn, weight),
                        append_candidate (snd s) cn (tw, weight)))))"

fun init_loop ::
  "'c entry list \<Rightarrow> 'c index \<times> 'c index \<Rightarrow> error + ('c index \<times> 'c index)" where
  "init_loop [] s = Inr s"
| "init_loop (entry # rest) s =
     (case init_entry s entry of
        Inl err \<Rightarrow> Inl err
      | Inr s' \<Rightarrow> init_loop rest s')"

text \<open>
  \<^verbatim>\<open>Converter.__init__\<close> from the parsed document on: an absent
  \<^verbatim>\<open>dict_version\<close> is \<open>0\<close>, an absent \<^verbatim>\<open>entries\<close> is the empty list.
\<close>

definition Converter_init :: "'c payload \<Rightarrow> error + 'c Converter" where
  "Converter_init data =
     (let version = (case p_dict_version data of None \<Rightarrow> 0 | Some v \<Rightarrow> v);
          es = (case p_entries data of None \<Rightarrow> [] | Some l \<Rightarrow> l)
      in case init_loop es (Map.empty, Map.empty) of
           Inl err \<Rightarrow> Inl err
         | Inr s \<Rightarrow>
             Inr \<lparr>dict_version = version, entries = es,
                  tw_to_zh = fst s, zh_to_tw = snd s\<rparr>)"

subsection \<open>The scorer\<close>

text \<open>
  \<^verbatim>\<open>len(text) * 0.1\<close> converts the length to a float and multiplies, and the sum
  with the base weight is a float addition.
\<close>

definition calculate_weight :: "'c str \<Rightarrow> pyfloat \<Rightarrow> pyfloat" where
  "calculate_weight text base_weight =
     (let length_weight = fmul (float_of_nat (length text)) float_0_1
      in fadd length_weight base_weight)"

subsection \<open>The candidate search\<close>

text \<open>
  The four local variables of \<^verbatim>\<open>find_best_match\<close>; \<^verbatim>\<open>best_weight\<close> starts at
  \<^verbatim>\<open>float('-inf')\<close>.
\<close>

record 'c best =
  best_match :: "'c str option"
  best_replacement :: "'c str option"
  best_weight :: pyfloat
  best_length :: nat

definition initial_best :: "'c best" where
  "initial_best =
     \<lparr>best_match = None, best_replacement = None, best_weight = NInf, best_length = 0\<rparr>"

text \<open>\<^verbatim>\<open>for replacement, base_weight in dictionary[substring]\<close>.\<close>

fun candidate_loop ::
  "'c str \<Rightarrow> nat \<Rightarrow> ('c str \<times> pyfloat) list \<Rightarrow> 'c best \<Rightarrow> 'c best" where
  "candidate_loop substring len [] b = b"
| "candidate_loop substring len ((replacement, base_weight) # rest) b =
     (let total_weight = calculate_weight substring base_weight
      in candidate_loop substring len rest
           (if fgt total_weight (best_weight b)
            then \<lparr>best_match = Some substring, best_replacement = Some replacement,
                  best_weight = total_weight, best_length = len\<rparr>
            else b))"

text \<open>
  \<^verbatim>\<open>for length in range(1, len(text) - pos + 1)\<close>, over the list of the lengths.
  The slice \<^verbatim>\<open>text[pos:pos + length]\<close> is \<open>take length (drop pos text)\<close>.
\<close>

fun length_loop :: "'c str \<Rightarrow> nat \<Rightarrow> 'c index \<Rightarrow> nat list \<Rightarrow> 'c best \<Rightarrow> 'c best" where
  "length_loop text pos dictionary [] b = b"
| "length_loop text pos dictionary (len # rest) b =
     (let substring = take len (drop pos text)
      in length_loop text pos dictionary rest
           (case dictionary substring of
              None \<Rightarrow> b
            | Some cands \<Rightarrow> candidate_loop substring len cands b))"

definition find_best_match ::
  "'c str \<Rightarrow> nat \<Rightarrow> 'c index \<Rightarrow> 'c str option \<times> 'c str option \<times> nat" where
  "find_best_match text pos dictionary =
     (let b = length_loop text pos dictionary [1 ..< length text - pos + 1] initial_best
      in (best_match b, best_replacement b, best_length b))"

text \<open>
  A match that was found has a positive length: the termination of the scan rests on
  it, so it is proved before the scan is defined.
\<close>

lemma candidate_loop_length_pos:
  "0 < len \<Longrightarrow> (best_match b \<noteq> None \<longrightarrow> 0 < best_length b) \<Longrightarrow>
   best_match (candidate_loop substring len cands b) \<noteq> None \<longrightarrow>
   0 < best_length (candidate_loop substring len cands b)"
  by (induction cands arbitrary: b) (auto simp: Let_def)

lemma length_loop_length_pos:
  "\<forall>n \<in> set lens. 0 < n \<Longrightarrow> (best_match b \<noteq> None \<longrightarrow> 0 < best_length b) \<Longrightarrow>
   best_match (length_loop text pos d lens b) \<noteq> None \<longrightarrow>
   0 < best_length (length_loop text pos d lens b)"
proof (induction lens arbitrary: b)
  case Nil
  then show ?case by simp
next
  case (Cons n lens)
  let ?s = "take n (drop pos text)"
  let ?b = "case d ?s of None \<Rightarrow> b | Some cands \<Rightarrow> candidate_loop ?s n cands b"
  have "best_match ?b \<noteq> None \<longrightarrow> 0 < best_length ?b"
    using Cons.prems candidate_loop_length_pos [of n b ?s]
    by (cases "d ?s") auto
  with Cons.IH [of ?b] Cons.prems(1) show ?case
    by (simp add: Let_def)
qed

lemma find_best_match_length_pos:
  assumes "find_best_match text pos d = (Some m, r, len)"
  shows "0 < len"
proof -
  let ?b = "length_loop text pos d [1 ..< length text - pos + 1] initial_best"
  have "best_match ?b \<noteq> None \<longrightarrow> 0 < best_length ?b"
    by (rule length_loop_length_pos) (auto simp: initial_best_def)
  with assms show ?thesis
    by (simp add: find_best_match_def Let_def)
qed

subsection \<open>The scan\<close>

text \<open>\<^verbatim>\<open>if match:\<close> holds of a string that is neither \<^verbatim>\<open>None\<close> nor empty.\<close>

fun truthy :: "'c str option \<Rightarrow> bool" where
  "truthy None = False"
| "truthy (Some s) = (s \<noteq> [])"

text \<open>
  The body of \<^verbatim>\<open>while pos < len(text)\<close>, on the pair of \<^verbatim>\<open>pos\<close> and the list
  \<^verbatim>\<open>result\<close>. The list holds what \<^verbatim>\<open>find_best_match\<close> returned as replacement,
  which Python allows to be \<^verbatim>\<open>None\<close>. The read \<^verbatim>\<open>text[pos]\<close> is in range under
  the loop's guard.
\<close>

definition convert_body ::
  "'c str \<Rightarrow> 'c index \<Rightarrow> nat \<times> 'c str option list \<Rightarrow> nat \<times> 'c str option list" where
  "convert_body text dictionary s =
     (case find_best_match text (fst s) dictionary of
        (match, replacement, len) \<Rightarrow>
          if truthy match
          then (fst s + len, snd s @ [replacement])
          else (fst s + 1, snd s @ [Some [text ! fst s]]))"

lemma convert_body_advances: "fst s < fst (convert_body text d s)"
proof -
  obtain match replacement len
    where found: "find_best_match text (fst s) d = (match, replacement, len)"
    by (cases "find_best_match text (fst s) d") blast
  show ?thesis
  proof (cases match)
    case None
    with found show ?thesis by (simp add: convert_body_def)
  next
    case (Some m)
    with found find_best_match_length_pos [of "text" "fst s" d m replacement len]
    show ?thesis by (simp add: convert_body_def)
  qed
qed

function convert_loop ::
  "'c str \<Rightarrow> 'c index \<Rightarrow> nat \<times> 'c str option list \<Rightarrow> 'c str option list" where
  "convert_loop text dictionary s =
     (if fst s < length text
      then convert_loop text dictionary (convert_body text dictionary s)
      else snd s)"
  by pat_completeness auto
termination
proof (relation "measure (\<lambda>(text, dictionary, s). length text - fst s)")
  show "wf (measure (\<lambda>(text, dictionary, s). length text - fst s))" by simp
next
  fix inp :: "'c str" and dictionary :: "'c index" and s :: "nat \<times> 'c str option list"
  assume "fst s < length inp"
  with convert_body_advances [of s inp dictionary]
  show "((inp, dictionary, convert_body inp dictionary s), (inp, dictionary, s))
        \<in> measure (\<lambda>(text, dictionary, s). length text - fst s)"
    by simp
qed

declare convert_loop.simps [simp del]

text \<open>\<^verbatim>\<open>''.join(result)\<close>: a \<^verbatim>\<open>TypeError\<close> on an element that is \<^verbatim>\<open>None\<close>.\<close>

fun join :: "'c str option list \<Rightarrow> error + 'c str" where
  "join [] = Inr []"
| "join (None # rest) = Inl TypeError"
| "join (Some piece # rest) =
     (case join rest of Inl err \<Rightarrow> Inl err | Inr joined \<Rightarrow> Inr (piece @ joined))"

text \<open>
  The head of \<^verbatim>\<open>convert\<close>: the index of the mode, or the \<^verbatim>\<open>ValueError\<close> of a mode
  that is neither \<^verbatim>\<open>'t2c'\<close> nor \<^verbatim>\<open>'c2t'\<close>.
\<close>

definition dictionary_for :: "'c Converter \<Rightarrow> string \<Rightarrow> error + 'c index" where
  "dictionary_for self mode =
     (if mode = ''t2c'' then Inr (tw_to_zh self)
      else if mode = ''c2t'' then Inr (zh_to_tw self)
      else Inl (ValueError mode))"

definition convert :: "'c Converter \<Rightarrow> 'c str \<Rightarrow> string \<Rightarrow> error + 'c str" where
  "convert self text mode =
     (case dictionary_for self mode of
        Inl err \<Rightarrow> Inl err
      | Inr dictionary \<Rightarrow> join (convert_loop text dictionary (0, [])))"

subsection \<open>The scan order, as the specification words it\<close>

text \<open>
  The specification describes the search as one pass over the candidates at a position:
  every length from \<open>1\<close> to \<open>length text - pos\<close> in ascending order, and for one
  length the candidates of the substring in the order of the index's list. A candidate
  is the substring, the replacement, the score and the length. These definitions follow
  the specification; \<open>find_best_match\<close> above follows the code, and the two are
  related by theorems.
\<close>

type_synonym 'c candidate = "'c str \<times> 'c str \<times> pyfloat \<times> nat"

definition candidates_at :: "'c str \<Rightarrow> nat \<Rightarrow> 'c index \<Rightarrow> nat \<Rightarrow> 'c candidate list" where
  "candidates_at text pos dictionary len =
     (let substring = take len (drop pos text)
      in case dictionary substring of
           None \<Rightarrow> []
         | Some cands \<Rightarrow>
             map (\<lambda>(replacement, base_weight).
                    (substring, replacement, calculate_weight substring base_weight, len))
               cands)"

definition scan_candidates :: "'c str \<Rightarrow> nat \<Rightarrow> 'c index \<Rightarrow> 'c candidate list" where
  "scan_candidates text pos dictionary =
     concat (map (candidates_at text pos dictionary) [1 ..< length text - pos + 1])"

definition score :: "'c candidate \<Rightarrow> pyfloat" where
  "score c = fst (snd (snd c))"

text \<open>The state of the search after a candidate was taken as the best.\<close>

definition chosen :: "'c candidate \<Rightarrow> 'c best" where
  "chosen c =
     \<lparr>best_match = Some (fst c), best_replacement = Some (fst (snd c)),
      best_weight = score c, best_length = snd (snd (snd c))\<rparr>"

text \<open>
  A candidate can become the best only when its score compares greater than the
  initial \<^verbatim>\<open>float('-inf')\<close>, that is when the score is a finite number or the positive
  infinity.
\<close>

definition eligible :: "'c candidate \<Rightarrow> bool" where
  "eligible c = fgt (score c) NInf"

definition offer :: "'c best \<Rightarrow> 'c candidate \<Rightarrow> 'c best" where
  "offer b c = (if fgt (score c) (best_weight b) then chosen c else b)"

subsection \<open>Predicates on an index\<close>

text \<open>
  \<open>has_candidate d k v\<close>: the key \<open>k\<close> is in the index and \<open>v\<close> is in its list.
  \<open>nonempty_lists d\<close>: no key of the index has the empty list.
  \<open>no_empty_replacement d\<close>: no candidate of the index has the empty string as its
  replacement.
  \<open>agree_off_empty d d'\<close>: the two indexes are equal at every key but the empty string.
  \<open>finite_weights d\<close>: every weight of the index is a finite number within the range of
  the doubles, whose largest is \<open>2 ^ 1024 - 2 ^ 971\<close>.
\<close>

definition has_candidate :: "'c index \<Rightarrow> 'c str \<Rightarrow> 'c str \<times> pyfloat \<Rightarrow> bool" where
  "has_candidate d k v = (case d k of None \<Rightarrow> False | Some cands \<Rightarrow> v \<in> set cands)"

definition nonempty_lists :: "'c index \<Rightarrow> bool" where
  "nonempty_lists d = (\<forall>k. d k \<noteq> Some [])"

definition no_empty_replacement :: "'c index \<Rightarrow> bool" where
  "no_empty_replacement d = (\<forall>k cands r w. d k = Some cands \<and> (r, w) \<in> set cands \<longrightarrow> r \<noteq> [])"

definition agree_off_empty :: "'c index \<Rightarrow> 'c index \<Rightarrow> bool" where
  "agree_off_empty d d' = (\<forall>k. k \<noteq> [] \<longrightarrow> d k = d' k)"

definition finite_weights :: "'c index \<Rightarrow> bool" where
  "finite_weights d =
     (\<forall>k cands r w. d k = Some cands \<and> (r, w) \<in> set cands \<longrightarrow>
        (\<exists>x. w = Finite x \<and> \<bar>x\<bar> \<le> 2 ^ 1024 - 2 ^ 971))"

section \<open>Facts of the float operations\<close>

lemma ulp_up_numeral [simp]:
  "ulp_up (numeral n) x = (if x < 2 then 1 / 2 ^ 52 else 2 * ulp_up (pred_numeral n) (x / 2))"
  by (simp add: numeral_eq_Suc)

lemma ulp_down_numeral [simp]:
  "ulp_down (numeral n) x =
   (if 1 \<le> x then 1 / 2 ^ 52 else ulp_down (pred_numeral n) (2 * x) / 2)"
  by (simp add: numeral_eq_Suc)

lemmas float_eval =
  calculate_weight_def float_of_nat_def float_0_1_def round_double_def ulp_def
  round_half_even_def Let_def

lemma fgt_irrefl: "\<not> fgt x x"
  by (cases x) simp_all

lemma fgt_trans: "fgt x y \<Longrightarrow> fgt y z \<Longrightarrow> fgt x z"
  by (cases x; cases y; cases z) simp_all

lemma fgt_eligible: "fgt x y \<Longrightarrow> fgt x NInf"
  by (cases x; cases y) simp_all

lemma ulp_up_pos: "0 < ulp_up k x"
  by (induction k arbitrary: x) simp_all

lemma ulp_down_pos: "0 < ulp_down k x"
  by (induction k arbitrary: x) simp_all

lemma ulp_pos: "0 < ulp x"
  by (simp add: ulp_def ulp_up_pos ulp_down_pos del: ulp_up_numeral ulp_down_numeral)

lemma ulp_up_le: "1 \<le> x \<Longrightarrow> ulp_up k x \<le> x / 2 ^ 52"
proof (induction k arbitrary: x)
  case 0
  then show ?case by (simp add: divide_right_mono)
next
  case (Suc k)
  show ?case
  proof (cases "x < 2")
    case True
    with Suc.prems show ?thesis by (simp add: divide_right_mono)
  next
    case False
    then have "1 \<le> x / 2" by simp
    from Suc.IH [OF this] False show ?thesis by simp
  qed
qed

lemma ulp_down_le: "ulp_down k x \<le> 1 / 2 ^ 52"
proof (induction k arbitrary: x)
  case 0
  show ?case by simp
next
  case (Suc k)
  show ?case
  proof (cases "1 \<le> x")
    case True
    then show ?thesis by simp
  next
    case False
    have "ulp_down k (2 * x) / 2 \<le> ulp_down k (2 * x)"
      using ulp_down_pos [of k "2 * x"] by simp
    also have "\<dots> \<le> 1 / 2 ^ 52" by (rule Suc.IH)
    finally show ?thesis using False by simp
  qed
qed

lemma ulp_up_exact:
  "2 ^ j \<le> x \<Longrightarrow> x < 2 ^ Suc j \<Longrightarrow> j \<le> k \<Longrightarrow> ulp_up k x = 2 ^ j / 2 ^ 52"
proof (induction k arbitrary: x j)
  case 0
  then show ?case by simp
next
  case (Suc k)
  show ?case
  proof (cases "x < 2")
    case True
    have "j = 0"
    proof (rule ccontr)
      assume "j \<noteq> 0"
      then have "(2::real) ^ 1 \<le> 2 ^ j"
        by (intro power_increasing) simp_all
      with Suc.prems(1) True show False by simp
    qed
    with True show ?thesis by simp
  next
    case False
    have "j \<noteq> 0"
      using False Suc.prems(2) by (cases j) simp_all
    then obtain i where j: "j = Suc i" by (cases j) simp_all
    from Suc.prems j have "2 ^ i \<le> x / 2" "x / 2 < 2 ^ Suc i" "i \<le> k"
      by simp_all
    from Suc.IH [OF this] False j show ?thesis by simp
  qed
qed


lemma round_half_even_upper: "of_int (round_half_even y) \<le> y + 1 / 2"
  unfolding round_half_even_def Let_def by (auto; linarith)

lemma round_half_even_lower: "y - 1 / 2 \<le> of_int (round_half_even y)"
  unfolding round_half_even_def Let_def by (auto; linarith)

lemma round_half_even_nonneg: "0 \<le> y \<Longrightarrow> 0 \<le> round_half_even y"
  unfolding round_half_even_def Let_def by (auto; linarith)

lemma round_half_even_below: "y < of_int N - 1 / 2 \<Longrightarrow> round_half_even y \<le> N - 1"
  unfolding round_half_even_def Let_def by (auto; linarith)

lemma round_double_nonneg:
  assumes "0 \<le> x"
  shows "round_double x = PInf \<or> (\<exists>m. 0 \<le> m \<and> round_double x = Finite m)"
proof (cases "x = 0")
  case True
  then show ?thesis by (simp add: round_double_def)
next
  case False
  with assms have pos: "0 < x" by simp
  let ?m = "of_int (round_half_even (\<bar>x\<bar> / ulp \<bar>x\<bar>)) * ulp \<bar>x\<bar>"
  have "0 \<le> \<bar>x\<bar> / ulp \<bar>x\<bar>"
    using ulp_pos [of "\<bar>x\<bar>"] by simp
  then have "0 \<le> ?m"
    using round_half_even_nonneg ulp_pos [of "\<bar>x\<bar>"] by simp
  with pos show ?thesis
    by (simp add: round_double_def Let_def)
qed

text \<open>Below half a unit past the largest double nothing overflows.\<close>

lemma round_double_finite:
  assumes "\<bar>x\<bar> < 2 ^ 1024 - 2 ^ 970"
  shows "\<exists>m. round_double x = Finite m"
proof (cases "x = 0")
  case True
  then show ?thesis by (simp add: round_double_def)
next
  case False
  let ?y = "\<bar>x\<bar>"
  let ?u = "ulp ?y"
  let ?n = "round_half_even (?y / ?u)"
  from False have y: "0 < ?y" by simp
  have u: "0 < ?u" by (rule ulp_pos)
  have near: "of_int ?n * ?u \<le> ?y + ?u / 2"
  proof -
    have "of_int ?n \<le> ?y / ?u + 1 / 2" by (rule round_half_even_upper)
    then have "of_int ?n * ?u \<le> (?y / ?u + 1 / 2) * ?u"
      using u by (simp only: mult_le_cancel_right_pos)
    also have "\<dots> = ?y + ?u / 2"
      using u by (simp add: field_simps)
    finally show ?thesis .
  qed
  have "of_int ?n * ?u < 2 ^ 1024"
  proof (cases "?y < 1")
    case True
    then have "?u = ulp_down 1022 ?y"
      by (simp add: ulp_def del: ulp_down_numeral)
    also have "\<dots> \<le> 1 / 2 ^ 52"
      by (rule ulp_down_le)
    also have "\<dots> \<le> (1::real)" by simp
    finally have "?u \<le> 1" .
    with near True have "of_int ?n * ?u < 2" by linarith
    also have "\<dots> < (2::real) ^ 1024" by simp
    finally show ?thesis .
  next
    case False
    then have one: "1 \<le> ?y" by simp
    show ?thesis
    proof (cases "?y < 2 ^ 1023")
      case True
      from one have "?u = ulp_up 1024 ?y"
        by (simp add: ulp_def del: ulp_up_numeral)
      also from one have "\<dots> \<le> ?y / 2 ^ 52"
        by (rule ulp_up_le)
      also have "\<dots> \<le> ?y"
        using y by (simp add: field_simps)
      finally have "?u \<le> ?y" .
      with near have "of_int ?n * ?u \<le> ?y + ?y / 2" by linarith
      also have "\<dots> < 2 * ?y" using y by linarith
      also have "\<dots> < 2 * 2 ^ 1023" using True by linarith
      also have "\<dots> = (2::real) ^ 1024" by simp
      finally show ?thesis .
    next
      case False
      then have low: "2 ^ 1023 \<le> ?y" by simp
      from assms have high: "?y < 2 ^ Suc 1023" by simp
      from one have "?u = ulp_up 1024 ?y"
        by (simp add: ulp_def del: ulp_up_numeral)
      also have "\<dots> = 2 ^ 1023 / 2 ^ 52"
        by (rule ulp_up_exact [OF low high]) simp
      finally have ulp: "?u = 2 ^ 1023 / 2 ^ 52" .
      have "?y / ?u < (2 ^ 1024 - 2 ^ 970) / ?u"
        using assms u by (simp only: divide_strict_right_mono)
      also have "\<dots> = of_int (2 ^ 53) - 1 / 2"
        unfolding ulp by simp
      finally have "?n \<le> 2 ^ 53 - 1"
        by (rule round_half_even_below)
      then have "(of_int ?n :: real) \<le> of_int (2 ^ 53 - 1)"
        by (simp only: of_int_le_iff)
      then have "of_int ?n * ?u \<le> of_int (2 ^ 53 - 1) * ?u"
        using u by (simp only: mult_le_cancel_right_pos)
      also have "\<dots> < 2 ^ 1024"
        unfolding ulp by simp
      finally show ?thesis .
    qed
  qed
  then show ?thesis
    by (simp add: round_double_def Let_def)
qed


lemma float_of_nat_cases:
  "float_of_nat n = PInf \<or> (\<exists>q. 0 \<le> q \<and> float_of_nat n = Finite q)"
  unfolding float_of_nat_def by (rule round_double_nonneg) simp

lemma length_weight_cases:
  "fmul (float_of_nat n) float_0_1 = PInf \<or>
   (\<exists>p. 0 \<le> p \<and> fmul (float_of_nat n) float_0_1 = Finite p)"
proof -
  from float_of_nat_cases [of n] show ?thesis
  proof
    assume "float_of_nat n = PInf"
    then show ?thesis by (simp add: float_0_1_def)
  next
    assume "\<exists>q. 0 \<le> q \<and> float_of_nat n = Finite q"
    then obtain q where q: "0 \<le> q" "float_of_nat n = Finite q" by blast
    then have "0 \<le> q * (3602879701896397 / 2 ^ 55)" by simp
    from round_double_nonneg [OF this] q(2) show ?thesis
      by (simp add: float_0_1_def)
  qed
qed


text \<open>A finite weight within the doubles gives a score above \<^verbatim>\<open>float('-inf')\<close>.\<close>

lemma calculate_weight_eligible:
  assumes "\<bar>w\<bar> \<le> 2 ^ 1024 - 2 ^ 971"
  shows "fgt (calculate_weight s (Finite w)) NInf"
proof -
  from length_weight_cases [of "length s"] show ?thesis
  proof
    assume "fmul (float_of_nat (length s)) float_0_1 = PInf"
    then show ?thesis by (simp add: calculate_weight_def)
  next
    assume "\<exists>p. 0 \<le> p \<and> fmul (float_of_nat (length s)) float_0_1 = Finite p"
    then obtain p where p: "0 \<le> p" "fmul (float_of_nat (length s)) float_0_1 = Finite p"
      by blast
    then have sum: "calculate_weight s (Finite w) = round_double (p + w)"
      by (simp add: calculate_weight_def)
    show ?thesis
    proof (cases "0 \<le> p + w")
      case True
      from round_double_nonneg [OF this] sum show ?thesis by auto
    next
      case False
      with p(1) have "\<bar>p + w\<bar> \<le> \<bar>w\<bar>" by simp
      also note assms
      also have "(2::real) ^ 1024 - 2 ^ 971 < 2 ^ 1024 - 2 ^ 970" by simp
      finally obtain m where "round_double (p + w) = Finite m"
        using round_double_finite by blast
      with sum show ?thesis by simp
    qed
  qed
qed

section \<open>The constructor's loop\<close>

lemma append_candidate_new: "has_candidate (append_candidate d k v) k v"
  by (simp add: has_candidate_def append_candidate_def)

lemma append_candidate_old:
  "has_candidate d k' v' \<Longrightarrow> has_candidate (append_candidate d k v) k' v'"
  by (auto simp: has_candidate_def append_candidate_def split: option.splits)

lemma append_candidate_nonempty: "nonempty_lists d \<Longrightarrow> nonempty_lists (append_candidate d k v)"
  by (simp add: nonempty_lists_def append_candidate_def)

lemma init_entry_Inl:
  "init_entry s e = Inl err \<longleftrightarrow>
   (f_tw e = None \<and> err = KeyError Tw) \<or> (f_tw e \<noteq> None \<and> f_cn e = None \<and> err = KeyError Cn)"
  by (auto simp: init_entry_def Let_def split: option.splits)

lemma init_entry_Inr:
  "init_entry s e = Inr s' \<longleftrightarrow>
   (\<exists>tw cn. f_tw e = Some tw \<and> f_cn e = Some cn \<and>
      s' = (append_candidate (fst s) tw (cn, case f_weight e of None \<Rightarrow> Finite 0 | Some w \<Rightarrow> w),
            append_candidate (snd s) cn (tw, case f_weight e of None \<Rightarrow> Finite 0 | Some w \<Rightarrow> w)))"
  by (auto simp: init_entry_def Let_def split: option.splits)

lemma init_loop_Inl:
  "init_loop es s = Inl err \<Longrightarrow> \<exists>field. err = KeyError field"
proof (induction es arbitrary: s)
  case Nil
  then show ?case by simp
next
  case (Cons e es)
  show ?case
  proof (cases "init_entry s e")
    case (Inl err')
    with Cons.prems have "err' = err" by simp
    with Inl show ?thesis by (auto simp: init_entry_Inl)
  next
    case (Inr s')
    with Cons.prems have "init_loop es s' = Inl err" by simp
    then show ?thesis by (rule Cons.IH)
  qed
qed

lemma init_loop_missing:
  "\<exists>e \<in> set es. f_tw e = None \<or> f_cn e = None \<Longrightarrow> \<exists>err. init_loop es s = Inl err"
proof (induction es arbitrary: s)
  case Nil
  then show ?case by simp
next
  case (Cons e es)
  show ?case
  proof (cases "init_entry s e")
    case (Inl err)
    then show ?thesis by simp
  next
    case (Inr s')
    then have "f_tw e \<noteq> None \<and> f_cn e \<noteq> None"
      by (auto simp: init_entry_Inr)
    with Cons.prems have "\<exists>e \<in> set es. f_tw e = None \<or> f_cn e = None"
      by auto
    from Cons.IH [OF this, of s'] Inr show ?thesis by simp
  qed
qed

lemma init_loop_keeps:
  "init_loop es s = Inr s' \<Longrightarrow>
   (has_candidate (fst s) k v \<longrightarrow> has_candidate (fst s') k v) \<and>
   (has_candidate (snd s) k v \<longrightarrow> has_candidate (snd s') k v)"
proof (induction es arbitrary: s)
  case Nil
  then show ?case by simp
next
  case (Cons e es)
  from Cons.prems obtain s1 where s1: "init_entry s e = Inr s1" and rest: "init_loop es s1 = Inr s'"
    by (cases "init_entry s e") auto
  from s1 have "(has_candidate (fst s) k v \<longrightarrow> has_candidate (fst s1) k v) \<and>
      (has_candidate (snd s) k v \<longrightarrow> has_candidate (snd s1) k v)"
    by (auto simp: init_entry_Inr intro: append_candidate_old)
  with Cons.IH [OF rest] show ?case by blast
qed

lemma init_loop_adds:
  assumes "init_loop es s = Inr s'" and "e \<in> set es"
  shows "\<exists>tw cn. f_tw e = Some tw \<and> f_cn e = Some cn \<and>
           has_candidate (fst s') tw (cn, case f_weight e of None \<Rightarrow> Finite 0 | Some w \<Rightarrow> w) \<and>
           has_candidate (snd s') cn (tw, case f_weight e of None \<Rightarrow> Finite 0 | Some w \<Rightarrow> w)"
  using assms
proof (induction es arbitrary: s)
  case Nil
  then show ?case by simp
next
  case (Cons x es)
  from Cons.prems(1) obtain s1 where s1: "init_entry s x = Inr s1" and rest: "init_loop es s1 = Inr s'"
    by (cases "init_entry s x") auto
  show ?case
  proof (cases "e \<in> set es")
    case True
    then show ?thesis by (rule Cons.IH [OF rest])
  next
    case False
    with Cons.prems(2) have "x = e" by simp
    with s1 obtain tw cn where tw: "f_tw e = Some tw" and cn: "f_cn e = Some cn"
      and "has_candidate (fst s1) tw (cn, case f_weight e of None \<Rightarrow> Finite 0 | Some w \<Rightarrow> w)"
      and "has_candidate (snd s1) cn (tw, case f_weight e of None \<Rightarrow> Finite 0 | Some w \<Rightarrow> w)"
      by (auto simp: init_entry_Inr append_candidate_new)
    with init_loop_keeps [OF rest] show ?thesis by blast
  qed
qed

lemma init_loop_nonempty:
  "init_loop es s = Inr s' \<Longrightarrow> nonempty_lists (fst s) \<Longrightarrow> nonempty_lists (snd s) \<Longrightarrow>
   nonempty_lists (fst s') \<and> nonempty_lists (snd s')"
proof (induction es arbitrary: s)
  case Nil
  then show ?case by simp
next
  case (Cons e es)
  from Cons.prems(1) obtain s1 where s1: "init_entry s e = Inr s1" and rest: "init_loop es s1 = Inr s'"
    by (cases "init_entry s e") auto
  from s1 Cons.prems(2,3) have "nonempty_lists (fst s1)" "nonempty_lists (snd s1)"
    by (auto simp: init_entry_Inr intro: append_candidate_nonempty)
  with rest show ?case by (rule Cons.IH)
qed

lemma Converter_init_Inr:
  "Converter_init data = Inr self \<longleftrightarrow>
   (\<exists>s. init_loop (case p_entries data of None \<Rightarrow> [] | Some l \<Rightarrow> l) (Map.empty, Map.empty) = Inr s \<and>
      self = \<lparr>dict_version = (case p_dict_version data of None \<Rightarrow> 0 | Some v \<Rightarrow> v),
              entries = (case p_entries data of None \<Rightarrow> [] | Some l \<Rightarrow> l),
              tw_to_zh = fst s, zh_to_tw = snd s\<rparr>)"
  by (auto simp: Converter_init_def Let_def split: sum.splits)

lemma Converter_init_Inl:
  "Converter_init data = Inl err \<longleftrightarrow>
   init_loop (case p_entries data of None \<Rightarrow> [] | Some l \<Rightarrow> l) (Map.empty, Map.empty) = Inl err"
  by (auto simp: Converter_init_def Let_def split: sum.splits)

lemma Converter_init_nonempty:
  assumes "Converter_init data = Inr self"
  shows "nonempty_lists (tw_to_zh self) \<and> nonempty_lists (zh_to_tw self)"
proof -
  from assms obtain s
    where loop: "init_loop (case p_entries data of None \<Rightarrow> [] | Some l \<Rightarrow> l)
                   (Map.empty, Map.empty) = Inr s"
      and self: "tw_to_zh self = fst s" "zh_to_tw self = snd s"
    by (auto simp: Converter_init_Inr)
  have "nonempty_lists (fst s) \<and> nonempty_lists (snd s)"
    by (rule init_loop_nonempty [OF loop]) (simp_all add: nonempty_lists_def)
  with self show ?thesis by simp
qed

section \<open>The search is one pass over the scan order\<close>

text \<open>
  The two nested loops of \<^verbatim>\<open>find_best_match\<close> offer the candidates of the scan order
  one after the other to the running best.
\<close>

lemma candidate_loop_foldl:
  "candidate_loop s n cands b =
   foldl offer b (map (\<lambda>(r, w). (s, r, calculate_weight s w, n)) cands)"
  by (induction cands arbitrary: b)
    (auto simp: Let_def offer_def chosen_def score_def)

lemma length_loop_foldl:
  "length_loop text pos d lens b =
   foldl offer b (concat (map (candidates_at text pos d) lens))"
proof (induction lens arbitrary: b)
  case Nil
  show ?case by simp
next
  case (Cons n lens)
  show ?case
    by (cases "d (take n (drop pos text))")
      (simp_all add: Cons.IH candidates_at_def candidate_loop_foldl Let_def)
qed

lemma find_best_match_scan:
  "find_best_match text pos d =
   (let b = foldl offer initial_best (scan_candidates text pos d)
    in (best_match b, best_replacement b, best_length b))"
  by (simp add: find_best_match_def scan_candidates_def length_loop_foldl)

lemma eligible_score: "score c = score c' \<Longrightarrow> eligible c = eligible c'"
  by (simp add: eligible_def)

lemma offer_initial: "offer initial_best c = (if eligible c then chosen c else initial_best)"
  by (simp add: offer_def eligible_def initial_best_def)

lemma foldl_offer_none:
  "\<forall>c \<in> set cs. \<not> eligible c \<Longrightarrow> foldl offer initial_best cs = initial_best"
  by (induction cs) (simp_all add: offer_initial)

lemma foldl_offer_first_max:
  assumes "\<exists>c \<in> set cs. eligible c"
  shows "\<exists>i<length cs. foldl offer initial_best cs = chosen (cs ! i) \<and> eligible (cs ! i) \<and>
           (\<forall>j<length cs. \<not> fgt (score (cs ! j)) (score (cs ! i))) \<and>
           (\<forall>j<i. score (cs ! j) \<noteq> score (cs ! i))"
  using assms
proof (induction cs rule: rev_induct)
  case Nil
  then show ?case by simp
next
  case (snoc c cs)
  show ?case
  proof (cases "\<exists>c \<in> set cs. eligible c")
    case False
    then have none: "\<forall>c \<in> set cs. \<not> eligible c" by blast
    with snoc.prems have c: "eligible c" by auto
    from none have "foldl offer initial_best cs = initial_best"
      by (rule foldl_offer_none)
    with c have best: "foldl offer initial_best (cs @ [c]) = chosen c"
      by (simp add: offer_initial)
    have low: "\<not> fgt (score (cs ! j)) (score c) \<and> score (cs ! j) \<noteq> score c"
      if "j < length cs" for j
    proof -
      from that none have "\<not> eligible (cs ! j)" by simp
      with c show ?thesis
        using fgt_eligible [of "score (cs ! j)" "score c"] eligible_score [of "cs ! j" c]
        by (auto simp: eligible_def)
    qed
    have "\<forall>j<length (cs @ [c]). \<not> fgt (score ((cs @ [c]) ! j)) (score c)"
      using low by (auto simp: nth_append less_Suc_eq fgt_irrefl)
    moreover have "\<forall>j<length cs. score ((cs @ [c]) ! j) \<noteq> score c"
      using low by (simp add: nth_append)
    ultimately show ?thesis
      using best c by (intro exI [of _ "length cs"]) simp
  next
    case True
    from snoc.IH [OF True] obtain i where i: "i < length cs"
      and best: "foldl offer initial_best cs = chosen (cs ! i)"
      and el: "eligible (cs ! i)"
      and top: "\<forall>j<length cs. \<not> fgt (score (cs ! j)) (score (cs ! i))"
      and first: "\<forall>j<i. score (cs ! j) \<noteq> score (cs ! i)"
      by blast
    show ?thesis
    proof (cases "fgt (score c) (score (cs ! i))")
      case True
      have "foldl offer initial_best (cs @ [c]) = chosen c"
        using True best by (simp add: offer_def chosen_def)
      moreover from True have "eligible c"
        unfolding eligible_def by (rule fgt_eligible)
      moreover have low: "\<not> fgt (score (cs ! j)) (score c) \<and> score (cs ! j) \<noteq> score c"
        if "j < length cs" for j
        using top that True fgt_trans [of "score (cs ! j)" "score c" "score (cs ! i)"]
        by auto
      then have "\<forall>j<length (cs @ [c]). \<not> fgt (score ((cs @ [c]) ! j)) (score c)"
        by (auto simp: nth_append less_Suc_eq fgt_irrefl)
      moreover have "\<forall>j<length cs. score ((cs @ [c]) ! j) \<noteq> score c"
        using low by (simp add: nth_append)
      ultimately show ?thesis
        by (intro exI [of _ "length cs"]) simp
    next
      case False
      have "foldl offer initial_best (cs @ [c]) = chosen (cs ! i)"
        using False best by (simp add: offer_def chosen_def)
      moreover have "\<forall>j<length (cs @ [c]).
          \<not> fgt (score ((cs @ [c]) ! j)) (score (cs ! i))"
        using False top by (auto simp: nth_append less_Suc_eq)
      moreover have "\<forall>j<i. score ((cs @ [c]) ! j) \<noteq> score (cs ! i)"
        using first i by (auto simp: nth_append)
      ultimately show ?thesis
        using i el by (intro exI [of _ i]) (simp add: nth_append)
    qed
  qed
qed

text \<open>What the scan order contains.\<close>

lemma candidates_at_member:
  "c \<in> set (candidates_at text pos d n) \<longleftrightarrow>
   (\<exists>cands r w. d (take n (drop pos text)) = Some cands \<and> (r, w) \<in> set cands \<and>
      c = (take n (drop pos text), r, calculate_weight (take n (drop pos text)) w, n))"
  by (cases "d (take n (drop pos text))") (auto simp: candidates_at_def Let_def)

lemma scan_candidates_member:
  "c \<in> set (scan_candidates text pos d) \<longleftrightarrow>
   (\<exists>n cands r w. 1 \<le> n \<and> n \<le> length text - pos \<and>
      d (take n (drop pos text)) = Some cands \<and> (r, w) \<in> set cands \<and>
      c = (take n (drop pos text), r, calculate_weight (take n (drop pos text)) w, n))"
proof -
  have lens: "set [1 ..< length text - pos + 1] = {n. 1 \<le> n \<and> n \<le> length text - pos}"
    by auto
  have "c \<in> set (scan_candidates text pos d) \<longleftrightarrow>
        (\<exists>n \<in> set [1 ..< length text - pos + 1]. c \<in> set (candidates_at text pos d n))"
    unfolding scan_candidates_def set_concat set_map by blast
  then have "c \<in> set (scan_candidates text pos d) \<longleftrightarrow>
        (\<exists>n. 1 \<le> n \<and> n \<le> length text - pos \<and> c \<in> set (candidates_at text pos d n))"
    unfolding lens by blast
  then show ?thesis
    unfolding candidates_at_member by blast
qed

lemma find_best_match_empty:
  assumes "\<forall>c \<in> set (scan_candidates text pos d). \<not> eligible c"
  shows "find_best_match text pos d = (None, None, 0)"
  using foldl_offer_none [OF assms] by (simp add: find_best_match_scan initial_best_def)

lemma find_best_match_found:
  assumes "\<exists>c \<in> set (scan_candidates text pos d). eligible c"
  shows "\<exists>n cands r w. 1 \<le> n \<and> n \<le> length text - pos \<and>
      d (take n (drop pos text)) = Some cands \<and> (r, w) \<in> set cands \<and>
      fgt (calculate_weight (take n (drop pos text)) w) NInf \<and>
      find_best_match text pos d = (Some (take n (drop pos text)), Some r, n)"
proof -
  from foldl_offer_first_max [OF assms] obtain i
    where i: "i < length (scan_candidates text pos d)"
      and best: "foldl offer initial_best (scan_candidates text pos d) =
                 chosen (scan_candidates text pos d ! i)"
      and el: "eligible (scan_candidates text pos d ! i)"
    by blast
  from i have "scan_candidates text pos d ! i \<in> set (scan_candidates text pos d)"
    by simp
  then obtain n cands r w where n: "1 \<le> n" "n \<le> length text - pos"
    and d: "d (take n (drop pos text)) = Some cands" "(r, w) \<in> set cands"
    and c: "scan_candidates text pos d ! i =
            (take n (drop pos text), r, calculate_weight (take n (drop pos text)) w, n)"
    unfolding scan_candidates_member by blast
  have "find_best_match text pos d = (Some (take n (drop pos text)), Some r, n)"
    by (simp add: find_best_match_scan best c chosen_def)
  moreover from el c have "fgt (calculate_weight (take n (drop pos text)) w) NInf"
    by (simp add: eligible_def score_def)
  ultimately show ?thesis using n d by blast
qed

lemma scan_candidates_empty_iff:
  "scan_candidates text pos d = [] \<longleftrightarrow>
   (\<forall>n. 1 \<le> n \<and> n \<le> length text - pos \<longrightarrow>
      d (take n (drop pos text)) = None \<or> d (take n (drop pos text)) = Some [])"
  (is "?lhs \<longleftrightarrow> ?rhs")
proof
  assume empty: ?lhs
  show ?rhs
  proof (intro allI impI)
    fix n assume n: "1 \<le> n \<and> n \<le> length text - pos"
    show "d (take n (drop pos text)) = None \<or> d (take n (drop pos text)) = Some []"
    proof (cases "d (take n (drop pos text))")
      case None
      then show ?thesis by simp
    next
      case (Some cands)
      show ?thesis
      proof (cases cands)
        case Nil
        with Some show ?thesis by simp
      next
        case (Cons rw rest)
        obtain r w where "rw = (r, w)" by (cases rw)
        with Cons Some n
        have "(take n (drop pos text), r, calculate_weight (take n (drop pos text)) w, n)
              \<in> set (scan_candidates text pos d)"
          unfolding scan_candidates_member
          by (intro exI [of _ n] exI [of _ cands] exI [of _ r] exI [of _ w]) simp
        with empty show ?thesis by simp
      qed
    qed
  qed
next
  assume none: ?rhs
  have "c \<notin> set (scan_candidates text pos d)" for c
    unfolding scan_candidates_member using none by fastforce
  then show ?lhs
    by (cases "scan_candidates text pos d") auto
qed

lemma scan_eligible_iff:
  "(\<exists>c \<in> set (scan_candidates text pos d). eligible c) \<longleftrightarrow>
   (\<exists>n cands r w. 1 \<le> n \<and> n \<le> length text - pos \<and>
      d (take n (drop pos text)) = Some cands \<and> (r, w) \<in> set cands \<and>
      fgt (calculate_weight (take n (drop pos text)) w) NInf)"
  (is "?lhs \<longleftrightarrow> ?rhs")
proof
  assume ?lhs
  then obtain c where "c \<in> set (scan_candidates text pos d)" and el: "eligible c"
    by blast
  then obtain n cands r w where "1 \<le> n" "n \<le> length text - pos"
    "d (take n (drop pos text)) = Some cands" "(r, w) \<in> set cands"
    and c: "c = (take n (drop pos text), r, calculate_weight (take n (drop pos text)) w, n)"
    unfolding scan_candidates_member by blast
  moreover from el c have "fgt (calculate_weight (take n (drop pos text)) w) NInf"
    by (simp add: eligible_def score_def)
  ultimately show ?rhs by blast
next
  assume ?rhs
  then obtain n cands r w where n: "1 \<le> n" "n \<le> length text - pos"
    "d (take n (drop pos text)) = Some cands" "(r, w) \<in> set cands"
    and el: "fgt (calculate_weight (take n (drop pos text)) w) NInf"
    by blast
  let ?c = "(take n (drop pos text), r, calculate_weight (take n (drop pos text)) w, n)"
  from n have "?c \<in> set (scan_candidates text pos d)"
    unfolding scan_candidates_member by blast
  moreover from el have "eligible ?c"
    by (simp add: eligible_def score_def)
  ultimately show ?lhs by blast
qed

section \<open>One iteration of the scan\<close>

lemma convert_body_passthrough:
  assumes "\<forall>c \<in> set (scan_candidates text (fst s) d). \<not> eligible c"
  shows "convert_body text d s = (fst s + 1, snd s @ [Some [text ! fst s]])"
  using find_best_match_empty [OF assms] by (simp add: convert_body_def)

lemma convert_body_match:
  assumes "\<exists>c \<in> set (scan_candidates text (fst s) d). eligible c"
  shows "\<exists>n cands r w. 1 \<le> n \<and> n \<le> length text - fst s \<and>
      d (take n (drop (fst s) text)) = Some cands \<and> (r, w) \<in> set cands \<and>
      fgt (calculate_weight (take n (drop (fst s) text)) w) NInf \<and>
      find_best_match text (fst s) d = (Some (take n (drop (fst s) text)), Some r, n) \<and>
      convert_body text d s = (fst s + n, snd s @ [Some r])"
proof -
  from find_best_match_found [OF assms] obtain n cands r w
    where n: "1 \<le> n" "n \<le> length text - fst s"
      and d: "d (take n (drop (fst s) text)) = Some cands" "(r, w) \<in> set cands"
        "fgt (calculate_weight (take n (drop (fst s) text)) w) NInf"
      and found: "find_best_match text (fst s) d = (Some (take n (drop (fst s) text)), Some r, n)"
    by blast
  from n have "length (take n (drop (fst s) text)) = n" by simp
  with n(1) have "take n (drop (fst s) text) \<noteq> []" by auto
  with found have "convert_body text d s = (fst s + n, snd s @ [Some r])"
    by (simp add: convert_body_def)
  with n d found show ?thesis by blast
qed

section \<open>Invariants of the scan\<close>

lemma convert_loop_invariant:
  assumes "P s"
    and "\<And>s. P s \<Longrightarrow> fst s < length text \<Longrightarrow> P (convert_body text d s)"
  shows "\<exists>pos. length text \<le> pos \<and> P (pos, convert_loop text d s)"
  using assms
proof (induction "text" d s rule: convert_loop.induct)
  case (1 t d s)
  show ?case
  proof (cases "fst s < length t")
    case True
    with "1.prems" have "P (convert_body t d s)"
      by blast
    from "1.IH" [OF True this "1.prems"(2)] True show ?thesis
      by (simp add: convert_loop.simps [of t d s])
  next
    case False
    with "1.prems"(1) show ?thesis
      by (intro exI [of _ "fst s"]) (simp add: convert_loop.simps [of t d s])
  qed
qed

lemma join_all_Some:
  "None \<notin> set res \<Longrightarrow> join res = Inr (concat (map the res))"
proof (induction res)
  case Nil
  show ?case by simp
next
  case (Cons x res)
  then show ?case by (cases x) simp_all
qed

lemma convert_body_Some:
  assumes "None \<notin> set (snd s)"
  shows "None \<notin> set (snd (convert_body text d s))"
proof (cases "\<exists>c \<in> set (scan_candidates text (fst s) d). eligible c")
  case True
  from convert_body_match [OF this] assms show ?thesis
    by auto
next
  case False
  then have "\<forall>c \<in> set (scan_candidates text (fst s) d). \<not> eligible c"
    by blast
  from convert_body_passthrough [OF this] assms show ?thesis
    by simp
qed

lemma convert_loop_Some: "None \<notin> set (convert_loop text d (0, []))"
proof -
  have "\<exists>pos. length text \<le> pos \<and> None \<notin> set (snd (pos, convert_loop text d (0, [])))"
    by (rule convert_loop_invariant [where P = "\<lambda>s. None \<notin> set (snd s)"])
      (simp_all add: convert_body_Some)
  then show ?thesis by simp
qed

section \<open>The empty dictionary\<close>

lemma scan_candidates_no_keys: "scan_candidates text pos Map.empty = []"
  by (simp add: scan_candidates_empty_iff)

lemma join_singletons: "join (map (\<lambda>c. Some [c]) xs) = Inr xs"
  by (induction xs) simp_all

lemma convert_loop_no_keys:
  "convert_loop text Map.empty (0, []) = map (\<lambda>c. Some [c]) text"
proof -
  let ?P = "\<lambda>s. fst s \<le> length text \<and> snd s = map (\<lambda>c. Some [c]) (take (fst s) text)"
  have "\<exists>pos. length text \<le> pos \<and> ?P (pos, convert_loop text Map.empty (0, []))"
  proof (rule convert_loop_invariant [where P = ?P])
    show "?P (0, [])" by simp
  next
    fix s :: "nat \<times> 'a str option list"
    assume inv: "?P s" and more: "fst s < length text"
    have "convert_body text Map.empty s =
          (fst s + 1, snd s @ [Some [text ! fst s]])"
      by (rule convert_body_passthrough) (simp add: scan_candidates_no_keys)
    with inv more show "?P (convert_body text Map.empty s)"
      by (simp add: take_Suc_conv_app_nth)
  qed
  then show ?thesis by auto
qed

section \<open>Counting the pieces\<close>

lemma convert_loop_pieces: "length (convert_loop text d (0, [])) \<le> length text"
proof -
  let ?P = "\<lambda>s. fst s \<le> length text \<and> length (snd s) \<le> fst s"
  have "\<exists>pos. length text \<le> pos \<and> ?P (pos, convert_loop text d (0, []))"
  proof (rule convert_loop_invariant [where P = ?P])
    show "?P (0, [])" by simp
  next
    fix s :: "nat \<times> 'a str option list"
    assume inv: "?P s" and more: "fst s < length text"
    show "?P (convert_body text d s)"
    proof (cases "\<exists>c \<in> set (scan_candidates text (fst s) d). eligible c")
      case True
      from convert_body_match [OF this] inv more show ?thesis by auto
    next
      case False
      then have "\<forall>c \<in> set (scan_candidates text (fst s) d). \<not> eligible c"
        by blast
      from convert_body_passthrough [OF this] inv more show ?thesis by simp
    qed
  qed
  then show ?thesis by auto
qed

lemma convert_loop_nonempty_pieces:
  assumes "no_empty_replacement d"
  shows "\<forall>x \<in> set (convert_loop text d (0, [])). \<exists>r. x = Some r \<and> r \<noteq> []"
proof -
  let ?P = "\<lambda>s :: nat \<times> 'a str option list. \<forall>x \<in> set (snd s). \<exists>r. x = Some r \<and> r \<noteq> []"
  have "\<exists>pos. length text \<le> pos \<and> ?P (pos, convert_loop text d (0, []))"
  proof (rule convert_loop_invariant [where P = ?P])
    show "?P (0, [])" by simp
  next
    fix s :: "nat \<times> 'a str option list"
    assume inv: "?P s"
    show "?P (convert_body text d s)"
    proof (cases "\<exists>c \<in> set (scan_candidates text (fst s) d). eligible c")
      case False
      then have "\<forall>c \<in> set (scan_candidates text (fst s) d). \<not> eligible c"
        by blast
      from convert_body_passthrough [OF this] inv show ?thesis by simp
    next
      case True
      from convert_body_match [OF this] obtain n cands r w
        where "d (take n (drop (fst s) text)) = Some cands" "(r, w) \<in> set cands"
          and body: "convert_body text d s = (fst s + n, snd s @ [Some r])"
        by blast
      with assms have "r \<noteq> []"
        unfolding no_empty_replacement_def by blast
      with body inv show ?thesis by simp
    qed
  qed
  then show ?thesis by simp
qed

lemma join_nonempty_pieces:
  "\<forall>x \<in> set res. \<exists>r. x = Some r \<and> r \<noteq> [] \<Longrightarrow>
   \<exists>out. join res = Inr out \<and> length res \<le> length out"
proof (induction res)
  case Nil
  show ?case by simp
next
  case (Cons x res)
  then obtain r where x: "x = Some r" "r \<noteq> []" by auto
  from Cons obtain out where "join res = Inr out" "length res \<le> length out" by auto
  with x show ?case
    by (cases r) simp_all
qed

section \<open>The empty key\<close>

lemma candidates_at_agree:
  assumes "agree_off_empty d d'" and "1 \<le> n" and "n \<le> length text - pos"
  shows "candidates_at text pos d n = candidates_at text pos d' n"
proof -
  from assms(2,3) have "length (take n (drop pos text)) = n" by simp
  with assms(2) have "take n (drop pos text) \<noteq> []" by auto
  with assms(1) have "d (take n (drop pos text)) = d' (take n (drop pos text))"
    by (simp add: agree_off_empty_def)
  then show ?thesis by (simp add: candidates_at_def)
qed

lemma scan_candidates_agree:
  assumes "agree_off_empty d d'"
  shows "scan_candidates text pos d = scan_candidates text pos d'"
proof -
  have "map (candidates_at text pos d) [1 ..< length text - pos + 1] =
        map (candidates_at text pos d') [1 ..< length text - pos + 1]"
    by (rule map_cong [OF refl]) (auto intro: candidates_at_agree [OF assms])
  then show ?thesis
    unfolding scan_candidates_def by (rule arg_cong)
qed

lemma convert_body_agree:
  assumes "agree_off_empty d d'"
  shows "convert_body text d s = convert_body text d' s"
  by (simp add: convert_body_def find_best_match_scan scan_candidates_agree [OF assms])

lemma convert_loop_agree:
  assumes "agree_off_empty d d'"
  shows "convert_loop text d s = convert_loop text d' s"
  using assms
proof (induction "text" d s rule: convert_loop.induct)
  case (1 t d s)
  show ?case
  proof (cases "fst s < length t")
    case True
    from "1.IH" [OF True "1.prems"]
    have "convert_loop t d (convert_body t d s) = convert_loop t d' (convert_body t d s)" .
    with True show ?thesis
      by (simp add: convert_loop.simps [of t d s] convert_loop.simps [of t d' s]
          convert_body_agree [OF "1.prems"])
  next
    case False
    then show ?thesis
      by (simp add: convert_loop.simps [of t d s] convert_loop.simps [of t d' s])
  qed
qed

lemma append_candidate_other: "k' \<noteq> k \<Longrightarrow> append_candidate d k v k' = d k'"
  by (simp add: append_candidate_def)

lemma append_candidate_agree:
  "agree_off_empty d d' \<Longrightarrow> agree_off_empty (append_candidate d k v) (append_candidate d' k v)"
  by (auto simp: agree_off_empty_def append_candidate_def)

lemma append_candidate_empty_key:
  "agree_off_empty d d' \<Longrightarrow> agree_off_empty (append_candidate d [] v) d'"
  by (simp add: agree_off_empty_def append_candidate_def)

lemma init_loop_without_empty_source:
  assumes "init_loop es s = Inr s'" and "agree_off_empty (fst s) (fst t)"
  shows "\<exists>t'. init_loop (filter (\<lambda>e. f_tw e \<noteq> Some []) es) t = Inr t' \<and>
           agree_off_empty (fst s') (fst t')"
  using assms
proof (induction es arbitrary: s t)
  case Nil
  then show ?case by simp
next
  case (Cons e es)
  from Cons.prems(1) obtain s1 where s1: "init_entry s e = Inr s1" and rest: "init_loop es s1 = Inr s'"
    by (cases "init_entry s e") auto
  from s1 obtain tw cn where tw: "f_tw e = Some tw" and cn: "f_cn e = Some cn"
    and s1_eq: "s1 = (append_candidate (fst s) tw (cn, case f_weight e of None \<Rightarrow> Finite 0 | Some w \<Rightarrow> w),
            append_candidate (snd s) cn (tw, case f_weight e of None \<Rightarrow> Finite 0 | Some w \<Rightarrow> w))"
    by (auto simp: init_entry_Inr)
  show ?case
  proof (cases "tw = []")
    case True
    with s1_eq Cons.prems(2) have "agree_off_empty (fst s1) (fst t)"
      by (simp add: append_candidate_empty_key)
    from Cons.IH [OF rest this] tw True show ?thesis by simp
  next
    case False
    let ?t1 = "(append_candidate (fst t) tw (cn, case f_weight e of None \<Rightarrow> Finite 0 | Some w \<Rightarrow> w),
            append_candidate (snd t) cn (tw, case f_weight e of None \<Rightarrow> Finite 0 | Some w \<Rightarrow> w))"
    from tw cn have t1: "init_entry t e = Inr ?t1"
      by (simp add: init_entry_Inr)
    from s1_eq Cons.prems(2) have "agree_off_empty (fst s1) (fst ?t1)"
      by (simp add: append_candidate_agree)
    from Cons.IH [OF rest this] tw False t1 show ?thesis by simp
  qed
qed

section \<open>Properties\<close>

subsection \<open>A weight that overrides the length\<close>

text \<open>
  Claim C1. The dictionary is built from the two entries \<open>ab\<close> to \<open>X\<close> at weight \<open>1.0\<close>
  and \<open>a\<close> to \<open>Y\<close> at weight \<open>5.0\<close>. The forward index then maps \<open>ab\<close> to the single
  candidate \<open>(X, 1.0)\<close> and \<open>a\<close> to \<open>(Y, 5.0)\<close>; the score of \<open>a\<close> is the double \<open>5.1\<close>,
  that of \<open>ab\<close> is the double \<open>1.2\<close> (the doubles nearest to \<open>51 / 10\<close> and to
  \<open>12 / 10\<close>), and the first compares greater; so the search at position \<open>0\<close> of \<open>ab\<close>
  returns the one-character match \<open>a\<close> with replacement \<open>Y\<close>, and the forward conversion
  of \<open>ab\<close> is \<open>Yb\<close>: the \<open>b\<close> is passed through.
\<close>

theorem weight_overrides_length:
  "\<exists>self.
     Converter_init
       \<lparr>p_dict_version = Some 1,
        p_entries = Some
          [\<lparr>f_tw = Some ''ab'', f_cn = Some ''X'', f_weight = Some (Finite 1)\<rparr>,
           \<lparr>f_tw = Some ''a'', f_cn = Some ''Y'', f_weight = Some (Finite 5)\<rparr>]\<rparr> = Inr self \<and>
     tw_to_zh self ''ab'' = Some [(''X'', Finite 1)] \<and>
     tw_to_zh self ''a'' = Some [(''Y'', Finite 5)] \<and>
     calculate_weight ''a'' (Finite 5) = round_double (51 / 10) \<and>
     calculate_weight ''ab'' (Finite 1) = round_double (12 / 10) \<and>
     calculate_weight ''a'' (Finite 5) = Finite (2871044762448691 / 2 ^ 49) \<and>
     calculate_weight ''ab'' (Finite 1) = Finite (5404319552844595 / 2 ^ 52) \<and>
     fgt (calculate_weight ''a'' (Finite 5)) (calculate_weight ''ab'' (Finite 1)) \<and>
     find_best_match ''ab'' 0 (tw_to_zh self) = (Some ''a'', Some ''Y'', 1) \<and>
     convert_loop ''ab'' (tw_to_zh self) (0, []) = [Some ''Y'', Some ''b''] \<and>
     convert self ''ab'' ''t2c'' = Inr ''Yb''"
proof -
  have a: "calculate_weight ''a'' (Finite 5) = Finite (2871044762448691 / 2 ^ 49)"
    by (simp add: float_eval)
  have ab: "calculate_weight ''ab'' (Finite 1) = Finite (5404319552844595 / 2 ^ 52)"
    by (simp add: float_eval)
  have r51: "calculate_weight ''a'' (Finite 5) = round_double (51 / 10)"
    by (simp add: float_eval)
  have r12: "calculate_weight ''ab'' (Finite 1) = round_double (12 / 10)"
    by (simp add: float_eval)
  have gt: "fgt (calculate_weight ''a'' (Finite 5)) (calculate_weight ''ab'' (Finite 1))"
    by (simp add: a ab)
  have "\<exists>self.
     Converter_init
       \<lparr>p_dict_version = Some 1,
        p_entries = Some
          [\<lparr>f_tw = Some ''ab'', f_cn = Some ''X'', f_weight = Some (Finite 1)\<rparr>,
           \<lparr>f_tw = Some ''a'', f_cn = Some ''Y'', f_weight = Some (Finite 5)\<rparr>]\<rparr> = Inr self \<and>
     tw_to_zh self ''ab'' = Some [(''X'', Finite 1)] \<and>
     tw_to_zh self ''a'' = Some [(''Y'', Finite 5)] \<and>
     find_best_match ''ab'' 0 (tw_to_zh self) = (Some ''a'', Some ''Y'', 1) \<and>
     convert_loop ''ab'' (tw_to_zh self) (0, []) = [Some ''Y'', Some ''b''] \<and>
     convert self ''ab'' ''t2c'' = Inr ''Yb''"
    by (simp add: Converter_init_def init_entry_def append_candidate_def
        a ab find_best_match_def initial_best_def convert_def
        dictionary_for_def convert_body_def convert_loop.simps upt_rec Let_def)
  with a ab r51 r12 gt show ?thesis
    by blast
qed

subsection \<open>The first of the best candidates is kept\<close>

text \<open>
  Claim C2. For every text, position and index, over the scan order (ascending substring
  length, and for one substring the order of its candidate list) and with the scores
  compared as the doubles they are: when no candidate of the scan order has a score
  above \<^verbatim>\<open>float('-inf')\<close> the search returns no match; otherwise it returns the
  candidate at some place \<open>i\<close> of the scan order such that no candidate has a strictly
  greater score and no candidate before place \<open>i\<close> has the same score, that is the first
  of the candidates of greatest score. One step of the inner loop leaves the running
  best as it is when the candidate's score is not strictly greater than the best
  weight. In particular, with \<open>a\<close> mapped to \<open>(Y1, 0.0)\<close> then \<open>(Y2, 0.0)\<close>, the forward
  conversion of \<open>a\<close> is \<open>Y1\<close>.
\<close>

theorem first_seen_tie_break:
  "((\<forall>c \<in> set (scan_candidates text pos d). \<not> eligible c) \<longrightarrow>
      find_best_match text pos d = (None, None, 0)) \<and>
   ((\<exists>c \<in> set (scan_candidates text pos d). eligible c) \<longrightarrow>
      (\<exists>i<length (scan_candidates text pos d).
         find_best_match text pos d =
           (Some (fst (scan_candidates text pos d ! i)),
            Some (fst (snd (scan_candidates text pos d ! i))),
            snd (snd (snd (scan_candidates text pos d ! i)))) \<and>
         (\<forall>j<length (scan_candidates text pos d).
            \<not> fgt (score (scan_candidates text pos d ! j))
                  (score (scan_candidates text pos d ! i))) \<and>
         (\<forall>j<i. score (scan_candidates text pos d ! j) \<noteq>
                 score (scan_candidates text pos d ! i)))) \<and>
   (\<not> fgt (calculate_weight s w) (best_weight b) \<longrightarrow>
      candidate_loop s n [(r, w)] b = b) \<and>
   (\<exists>self.
      Converter_init
        \<lparr>p_dict_version = Some 1,
         p_entries = Some
           [\<lparr>f_tw = Some ''a'', f_cn = Some ''Y1'', f_weight = Some (Finite 0)\<rparr>,
            \<lparr>f_tw = Some ''a'', f_cn = Some ''Y2'', f_weight = Some (Finite 0)\<rparr>]\<rparr>
        = Inr self \<and>
      tw_to_zh self ''a'' = Some [(''Y1'', Finite 0), (''Y2'', Finite 0)] \<and>
      convert self ''a'' ''t2c'' = Inr ''Y1'')"
proof (intro conjI impI)
  assume "\<forall>c \<in> set (scan_candidates text pos d). \<not> eligible c"
  then show "find_best_match text pos d = (None, None, 0)"
    by (rule find_best_match_empty)
next
  assume "\<exists>c \<in> set (scan_candidates text pos d). eligible c"
  from foldl_offer_first_max [OF this] obtain i
    where "i < length (scan_candidates text pos d)"
      and "foldl offer initial_best (scan_candidates text pos d) =
           chosen (scan_candidates text pos d ! i)"
      and "\<forall>j<length (scan_candidates text pos d).
            \<not> fgt (score (scan_candidates text pos d ! j))
                  (score (scan_candidates text pos d ! i))"
      and "\<forall>j<i. score (scan_candidates text pos d ! j) \<noteq>
                 score (scan_candidates text pos d ! i)"
    by blast
  then show "\<exists>i<length (scan_candidates text pos d).
         find_best_match text pos d =
           (Some (fst (scan_candidates text pos d ! i)),
            Some (fst (snd (scan_candidates text pos d ! i))),
            snd (snd (snd (scan_candidates text pos d ! i)))) \<and>
         (\<forall>j<length (scan_candidates text pos d).
            \<not> fgt (score (scan_candidates text pos d ! j))
                  (score (scan_candidates text pos d ! i))) \<and>
         (\<forall>j<i. score (scan_candidates text pos d ! j) \<noteq>
                 score (scan_candidates text pos d ! i))"
    by (intro exI [of _ i]) (simp add: find_best_match_scan chosen_def)
next
  assume "\<not> fgt (calculate_weight s w) (best_weight b)"
  then show "candidate_loop s n [(r, w)] b = b"
    by simp
next
  have "calculate_weight ''a'' (Finite 0) = Finite (3602879701896397 / 2 ^ 55)"
    by (simp add: float_eval)
  then show "\<exists>self.
      Converter_init
        \<lparr>p_dict_version = Some 1,
         p_entries = Some
           [\<lparr>f_tw = Some ''a'', f_cn = Some ''Y1'', f_weight = Some (Finite 0)\<rparr>,
            \<lparr>f_tw = Some ''a'', f_cn = Some ''Y2'', f_weight = Some (Finite 0)\<rparr>]\<rparr>
        = Inr self \<and>
      tw_to_zh self ''a'' = Some [(''Y1'', Finite 0), (''Y2'', Finite 0)] \<and>
      convert self ''a'' ''t2c'' = Inr ''Y1''"
    by (simp add: Converter_init_def init_entry_def append_candidate_def
        find_best_match_def initial_best_def convert_def
        dictionary_for_def convert_body_def convert_loop.simps upt_rec Let_def)
qed

text \<open>
  The theorem at the index of the tie, where both candidates have the score of the
  double \<open>0.1\<close> and the first is returned; at a running best of that weight offered a
  candidate of the same score; and at an index whose only candidate has the weight
  \<^verbatim>\<open>float('-inf')\<close>, where no candidate is above the initial best. Two more indexes
  show the doubles at work: with \<open>a\<close> to \<open>S\<close> at \<open>0.5\<close> and \<open>abcdef\<close> to \<open>L\<close> at \<open>0.0\<close> the
  longer match wins, \<open>6 * 0.1\<close> being the double \<open>0.6000000000000001\<close>, above the
  \<open>0.6\<close> of \<open>0.1 + 0.5\<close>; with \<open>a\<close> to \<open>S\<close> and \<open>ab\<close> to \<open>L\<close>, both at \<open>1e16\<close>, the two
  scores are one double and the first candidate is kept.
\<close>

theorem first_seen_tie_break_witness:
  "scan_candidates ''a'' 0 [''a'' \<mapsto> [(''Y1'', Finite 0), (''Y2'', Finite 0)]] =
     [(''a'', ''Y1'', Finite (3602879701896397 / 2 ^ 55), 1),
      (''a'', ''Y2'', Finite (3602879701896397 / 2 ^ 55), 1)] \<and>
   find_best_match ''a'' 0 [''a'' \<mapsto> [(''Y1'', Finite 0), (''Y2'', Finite 0)]] =
     (Some ''a'', Some ''Y1'', 1) \<and>
   candidate_loop ''a'' 1 [(''Y2'', Finite 0)]
     \<lparr>best_match = Some ''a'', best_replacement = Some ''Y1'',
      best_weight = Finite (3602879701896397 / 2 ^ 55), best_length = 1\<rparr> =
     \<lparr>best_match = Some ''a'', best_replacement = Some ''Y1'',
      best_weight = Finite (3602879701896397 / 2 ^ 55), best_length = 1\<rparr> \<and>
   scan_candidates ''a'' 0 [''a'' \<mapsto> [(''Y'', NInf)]] = [(''a'', ''Y'', NInf, 1)] \<and>
   find_best_match ''a'' 0 [''a'' \<mapsto> [(''Y'', NInf)]] = (None, None, 0) \<and>
   calculate_weight ''abcdef'' (Finite 0) = Finite (1351079888211149 / 2 ^ 51) \<and>
   calculate_weight ''a'' (Finite (1 / 2)) = Finite (5404319552844595 / 2 ^ 53) \<and>
   find_best_match ''abcdef'' 0
     [''a'' \<mapsto> [(''S'', Finite (1 / 2))], ''abcdef'' \<mapsto> [(''L'', Finite 0)]] =
     (Some ''abcdef'', Some ''L'', 6) \<and>
   calculate_weight ''a'' (Finite 10000000000000000) = Finite 10000000000000000 \<and>
   calculate_weight ''ab'' (Finite 10000000000000000) = Finite 10000000000000000 \<and>
   find_best_match ''ab'' 0
     [''a'' \<mapsto> [(''S'', Finite 10000000000000000)],
      ''ab'' \<mapsto> [(''L'', Finite 10000000000000000)]] =
     (Some ''a'', Some ''S'', 1)"
proof -
  let ?t = "Finite (3602879701896397 / 2 ^ 55)"
  let ?d = "[''a'' \<mapsto> [(''Y1'', Finite 0), (''Y2'', Finite 0)]]"
  let ?b = "\<lparr>best_match = Some ''a'', best_replacement = Some ''Y1'',
      best_weight = ?t, best_length = 1 :: nat\<rparr>"
  let ?cs = "scan_candidates ''a'' 0 ?d"
  have tenth: "calculate_weight ''a'' (Finite 0) = ?t"
    by (simp add: float_eval)
  have scan: "?cs = [(''a'', ''Y1'', ?t, 1), (''a'', ''Y2'', ?t, 1)]"
    by (simp add: scan_candidates_def candidates_at_def tenth Let_def)
  note inst = first_seen_tie_break [of "''a''" 0 ?d "''a''" "Finite 0" ?b 1 "''Y2''"]
  have "\<exists>c \<in> set ?cs. eligible c"
    by (simp add: scan eligible_def score_def)
  with inst have "\<exists>i<length ?cs.
      find_best_match ''a'' 0 ?d =
        (Some (fst (?cs ! i)), Some (fst (snd (?cs ! i))), snd (snd (snd (?cs ! i)))) \<and>
      (\<forall>j<length ?cs. \<not> fgt (score (?cs ! j)) (score (?cs ! i))) \<and>
      (\<forall>j<i. score (?cs ! j) \<noteq> score (?cs ! i))"
    by blast
  then obtain i where i: "i < length ?cs"
    and found: "find_best_match ''a'' 0 ?d =
        (Some (fst (?cs ! i)), Some (fst (snd (?cs ! i))), snd (snd (snd (?cs ! i))))"
    and first: "\<forall>j<i. score (?cs ! j) \<noteq> score (?cs ! i)"
    by blast
  have "i = 0"
  proof (rule ccontr)
    assume "i \<noteq> 0"
    with i have "i = 1" by (simp add: scan)
    with first have "score (?cs ! 0) \<noteq> score (?cs ! 1)" by simp
    then show False by (simp add: scan score_def)
  qed
  with found have tie: "find_best_match ''a'' 0 ?d = (Some ''a'', Some ''Y1'', 1)"
    by (simp add: scan)
  from inst have step: "candidate_loop ''a'' 1 [(''Y2'', Finite 0)] ?b = ?b"
    by (simp add: tenth)
  let ?e = "[''a'' \<mapsto> [(''Y'', NInf)]]"
  have minus: "calculate_weight ''a'' NInf = NInf"
    by (simp add: float_eval)
  have scan_e: "scan_candidates ''a'' 0 ?e = [(''a'', ''Y'', NInf, 1)]"
    by (simp add: scan_candidates_def candidates_at_def minus Let_def)
  then have "\<forall>c \<in> set (scan_candidates ''a'' 0 ?e). \<not> eligible c"
    by (simp add: eligible_def score_def)
  with first_seen_tie_break [of "''a''" 0 ?e "''a''" "Finite 0" ?b 1 "''Y2''"]
  have none: "find_best_match ''a'' 0 ?e = (None, None, 0)"
    by blast
  have six: "calculate_weight ''abcdef'' (Finite 0) = Finite (1351079888211149 / 2 ^ 51)"
    by (simp add: float_eval)
  have half: "calculate_weight ''a'' (Finite (1 / 2)) = Finite (5404319552844595 / 2 ^ 53)"
    by (simp add: float_eval)
  have long: "find_best_match ''abcdef'' 0
     [''a'' \<mapsto> [(''S'', Finite (1 / 2))], ''abcdef'' \<mapsto> [(''L'', Finite 0)]] =
     (Some ''abcdef'', Some ''L'', 6)"
    by (simp add: find_best_match_def initial_best_def six half upt_rec Let_def)
  have big1: "calculate_weight ''a'' (Finite 10000000000000000) = Finite 10000000000000000"
    by (simp add: float_eval)
  have big2: "calculate_weight ''ab'' (Finite 10000000000000000) = Finite 10000000000000000"
    by (simp add: float_eval)
  have same: "find_best_match ''ab'' 0
     [''a'' \<mapsto> [(''S'', Finite 10000000000000000)],
      ''ab'' \<mapsto> [(''L'', Finite 10000000000000000)]] =
     (Some ''a'', Some ''S'', 1)"
    by (simp add: find_best_match_def initial_best_def big1 big2 upt_rec Let_def)
  from scan tie step scan_e none six half long big1 big2 same show ?thesis
    by blast
qed

subsection \<open>Termination and the number of pieces\<close>

text \<open>
  Claim C3, as the code has it. For every text and either recognised mode: one
  iteration of the loop moves the position forward by at least one; \<^verbatim>\<open>convert\<close> returns
  a string, the joining of the pieces the scan appended; the number of pieces is at most
  the number of characters of the input; and when no candidate of the selected index
  has the empty string as its replacement, the number of characters of the output is at
  least the number of pieces. (The scan is a total function: its termination is proved
  where \<open>convert_loop\<close> is defined, by the measure \<open>length text - pos\<close>.)
\<close>

theorem scan_terminates:
  assumes "dictionary_for self mode = Inr d"
  shows "fst s + 1 \<le> fst (convert_body text d s) \<and>
    (\<exists>out. join (convert_loop text d (0, [])) = Inr out \<and>
       convert self text mode = Inr out \<and>
       length (convert_loop text d (0, [])) \<le> length text \<and>
       (no_empty_replacement d \<longrightarrow> length (convert_loop text d (0, [])) \<le> length out))"
proof -
  have step: "fst s + 1 \<le> fst (convert_body text d s)"
    using convert_body_advances [of s "text" d] by simp
  let ?res = "convert_loop text d (0, [])"
  have "join ?res = Inr (concat (map the ?res))"
    by (rule join_all_Some) (rule convert_loop_Some)
  then obtain out where out: "join ?res = Inr out"
    by blast
  with assms have conv: "convert self text mode = Inr out"
    by (simp add: convert_def)
  have "length ?res \<le> length out" if "no_empty_replacement d"
  proof -
    from join_nonempty_pieces [OF convert_loop_nonempty_pieces [OF that]]
    obtain out' where "join ?res = Inr out'" "length ?res \<le> length out'"
      by blast
    with out show ?thesis by simp
  qed
  with step out conv convert_loop_pieces [of "text" d] show ?thesis
    by blast
qed

text \<open>
  The theorem at the index \<open>ab\<close> to \<open>XYZ\<close> and the text \<open>abc\<close>: two pieces, four
  characters.
\<close>

theorem scan_terminates_witness:
  "dictionary_for
     \<lparr>dict_version = 1, entries = [], tw_to_zh = [''ab'' \<mapsto> [(''XYZ'', Finite 0)]],
      zh_to_tw = [''XYZ'' \<mapsto> [(''ab'', Finite 0)]]\<rparr> ''t2c'' = Inr [''ab'' \<mapsto> [(''XYZ'', Finite 0)]] \<and>
   no_empty_replacement [''ab'' \<mapsto> [(''XYZ'', Finite 0)]] \<and>
   convert_body ''abc'' [''ab'' \<mapsto> [(''XYZ'', Finite 0)]] (0, []) = (2, [Some ''XYZ'']) \<and>
   convert_loop ''abc'' [''ab'' \<mapsto> [(''XYZ'', Finite 0)]] (0, []) = [Some ''XYZ'', Some ''c''] \<and>
   convert
     \<lparr>dict_version = 1, entries = [], tw_to_zh = [''ab'' \<mapsto> [(''XYZ'', Finite 0)]],
      zh_to_tw = [''XYZ'' \<mapsto> [(''ab'', Finite 0)]]\<rparr> ''abc'' ''t2c'' = Inr ''XYZc'' \<and>
   length [Some ''XYZ'', Some ''c''] \<le> length ''XYZc''"
proof -
  let ?d = "[''ab'' \<mapsto> [(''XYZ'', Finite 0)]]"
  let ?self = "\<lparr>dict_version = 1, entries = [], tw_to_zh = ?d,
      zh_to_tw = [''XYZ'' \<mapsto> [(''ab'', Finite 0)]]\<rparr>"
  have sel: "dictionary_for ?self ''t2c'' = Inr ?d"
    by (simp add: dictionary_for_def)
  have ne: "no_empty_replacement ?d"
    by (auto simp: no_empty_replacement_def split: if_splits)
  have body: "convert_body ''abc'' ?d (0, []) = (2, [Some ''XYZ''])"
    by (simp add: convert_body_def find_best_match_def initial_best_def
        float_eval upt_rec)
  have loop: "convert_loop ''abc'' ?d (0, []) = [Some ''XYZ'', Some ''c'']"
    by (simp add: convert_body_def convert_loop.simps find_best_match_def initial_best_def
        float_eval upt_rec)
  from scan_terminates [OF sel, of "(0, [])" "''abc''"] ne loop
  have "convert ?self ''abc'' ''t2c'' = Inr ''XYZc'' \<and>
        length [Some ''XYZ'', Some ''c''] \<le> length ''XYZc''"
    by auto
  with sel ne body loop show ?thesis by simp
qed

text \<open>
  As the claim is stated, without the condition on the replacements, it fails: with the
  entry \<open>a\<close> to the empty string, the forward conversion of \<open>a\<close> appends one piece and
  returns the empty string, of no character.
\<close>

theorem empty_replacement_counterexample:
  "\<exists>self.
     Converter_init
       \<lparr>p_dict_version = Some 1,
        p_entries = Some [\<lparr>f_tw = Some ''a'', f_cn = Some '''', f_weight = Some (Finite 0)\<rparr>]\<rparr> = Inr self \<and>
     convert_loop ''a'' (tw_to_zh self) (0, []) = [Some ''''] \<and>
     convert self ''a'' ''t2c'' = Inr '''' \<and>
     \<not> length (convert_loop ''a'' (tw_to_zh self) (0, [])) \<le> length ''''"
  by (simp add: Converter_init_def init_entry_def Let_def append_candidate_def
      float_eval find_best_match_def initial_best_def convert_def
      dictionary_for_def convert_body_def convert_loop.simps upt_rec)

subsection \<open>An unsupported direction\<close>

text \<open>
  Claim C4. For every converter, text and mode: a mode other than \<^verbatim>\<open>'t2c'\<close> (forward)
  and \<^verbatim>\<open>'c2t'\<close> (reverse) fails in the head of \<^verbatim>\<open>convert\<close>, where the index is
  selected and before the scan, with the error of that mode (Python's \<^verbatim>\<open>ValueError\<close>,
  the specification's \<open>UnsupportedDirection\<close>), and the result holds no output. For the
  two recognised modes an index is selected, the joining of the scan's pieces succeeds
  and \<^verbatim>\<open>convert\<close> returns the joined string.
\<close>

theorem unsupported_direction:
  "(mode \<noteq> ''t2c'' \<and> mode \<noteq> ''c2t'' \<longrightarrow>
      dictionary_for self mode = Inl (UnsupportedDirection mode) \<and>
      convert self text mode = Inl (UnsupportedDirection mode)) \<and>
   (mode = ''t2c'' \<or> mode = ''c2t'' \<longrightarrow>
      (\<exists>dictionary out. dictionary_for self mode = Inr dictionary \<and>
         join (convert_loop text dictionary (0, [])) = Inr out \<and>
         convert self text mode = Inr out))"
proof (intro conjI impI)
  assume other: "mode \<noteq> ''t2c'' \<and> mode \<noteq> ''c2t''"
  then show "dictionary_for self mode = Inl (UnsupportedDirection mode)"
    by (simp add: dictionary_for_def)
  from other show "convert self text mode = Inl (UnsupportedDirection mode)"
    by (simp add: convert_def dictionary_for_def)
next
  assume "mode = ''t2c'' \<or> mode = ''c2t''"
  then obtain dictionary where sel: "dictionary_for self mode = Inr dictionary"
    by (auto simp: dictionary_for_def)
  have "join (convert_loop text dictionary (0, [])) =
        Inr (concat (map the (convert_loop text dictionary (0, []))))"
    by (rule join_all_Some) (rule convert_loop_Some)
  with sel show "\<exists>dictionary out. dictionary_for self mode = Inr dictionary \<and>
         join (convert_loop text dictionary (0, [])) = Inr out \<and>
         convert self text mode = Inr out"
    by (simp add: convert_def)
qed

text \<open>
  The theorem at the mode \<open>forward\<close>, which fails, and at the two recognised modes on a
  converter with one entry, which return.
\<close>

theorem unsupported_direction_witness:
  "convert \<lparr>dict_version = 1, entries = [], tw_to_zh = [''a'' \<mapsto> [(''Y'', Finite 5)]],
            zh_to_tw = [''Y'' \<mapsto> [(''a'', Finite 5)]]\<rparr> ''ab'' ''forward''
     = Inl (UnsupportedDirection ''forward'') \<and>
   convert \<lparr>dict_version = 1, entries = [], tw_to_zh = [''a'' \<mapsto> [(''Y'', Finite 5)]],
            zh_to_tw = [''Y'' \<mapsto> [(''a'', Finite 5)]]\<rparr> ''ab'' ''t2c'' = Inr ''Yb'' \<and>
   convert \<lparr>dict_version = 1, entries = [], tw_to_zh = [''a'' \<mapsto> [(''Y'', Finite 5)]],
            zh_to_tw = [''Y'' \<mapsto> [(''a'', Finite 5)]]\<rparr> ''Yb'' ''c2t'' = Inr ''ab''"
proof -
  let ?self = "\<lparr>dict_version = 1, entries = [], tw_to_zh = [''a'' \<mapsto> [(''Y'', Finite 5)]],
            zh_to_tw = [''Y'' \<mapsto> [(''a'', Finite 5)]]\<rparr>"
  from unsupported_direction [of "''forward''" ?self "''ab''"]
  have "convert ?self ''ab'' ''forward'' = Inl (UnsupportedDirection ''forward'')"
    by simp
  moreover from unsupported_direction [of "''t2c''" ?self "''ab''"]
  have "convert ?self ''ab'' ''t2c'' = Inr ''Yb''"
    by (simp add: dictionary_for_def convert_body_def convert_loop.simps
        find_best_match_def initial_best_def float_eval upt_rec)
  moreover from unsupported_direction [of "''c2t''" ?self "''Yb''"]
  have "convert ?self ''Yb'' ''c2t'' = Inr ''ab''"
    by (simp add: dictionary_for_def convert_body_def convert_loop.simps
        find_best_match_def initial_best_def float_eval upt_rec)
  ultimately show ?thesis by simp
qed

subsection \<open>A malformed entry\<close>

text \<open>
  Claim C5. When the entry list of the document holds an entry without the source-text
  field or without the target-text field, the constructor fails with the error of the
  absent field (Python's \<^verbatim>\<open>KeyError\<close>, the specification's \<open>MalformedEntry\<close>): the
  entry is not skipped, and the result holds no converter, so no partly filled store.
\<close>

theorem malformed_entry_fails:
  assumes "p_entries data = Some es"
    and "\<exists>e \<in> set es. f_tw e = None \<or> f_cn e = None"
  shows "\<exists>field. Converter_init data = Inl (MalformedEntry field)"
proof -
  from init_loop_missing [OF assms(2)] obtain err
    where err: "init_loop es (Map.empty, Map.empty) = Inl err"
    by blast
  from init_loop_Inl [OF this] obtain field where "err = KeyError field"
    by blast
  with err assms(1) have "Converter_init data = Inl (KeyError field)"
    by (simp add: Converter_init_Inl)
  then show ?thesis ..
qed

text \<open>The theorem at a list of three entries whose second has no target text.\<close>

theorem malformed_entry_fails_witness:
  "Converter_init
     \<lparr>p_dict_version = Some 1,
      p_entries = Some
        [\<lparr>f_tw = Some ''a'', f_cn = Some ''Y'', f_weight = Some (Finite 1)\<rparr>,
         \<lparr>f_tw = Some ''b'', f_cn = None, f_weight = Some (Finite 1)\<rparr>,
         \<lparr>f_tw = Some ''c'', f_cn = Some ''Z'', f_weight = None\<rparr>]\<rparr>
   = Inl (MalformedEntry Cn)"
  using malformed_entry_fails
    [of "\<lparr>p_dict_version = Some 1,
      p_entries = Some
        [\<lparr>f_tw = Some ''a'', f_cn = Some ''Y'', f_weight = Some (Finite 1)\<rparr>,
         \<lparr>f_tw = Some ''b'', f_cn = None, f_weight = Some (Finite 1)\<rparr>,
         \<lparr>f_tw = Some ''c'', f_cn = Some ''Z'', f_weight = None\<rparr>]\<rparr>"
        "[\<lparr>f_tw = Some ''a'', f_cn = Some ''Y'', f_weight = Some (Finite 1)\<rparr>,
         \<lparr>f_tw = Some ''b'', f_cn = None, f_weight = Some (Finite 1)\<rparr>,
         \<lparr>f_tw = Some ''c'', f_cn = Some ''Z'', f_weight = None\<rparr>]"]
  by (simp add: Converter_init_def init_entry_def Let_def)

subsection \<open>The scorer\<close>




subsection \<open>What a successful build guarantees\<close>

text \<open>
  Claim C7. When the constructor succeeds, the converter holds the entry list of the
  document; for every entry of the list both text fields are present, and the forward
  index maps the entry's source form to a list that contains the target form paired with
  the entry's weight, \<open>0.0\<close> when the weight field is absent; and every key of the forward
  index and of the reverse index maps to a non-empty list.
\<close>

theorem build_guarantee:
  assumes "Converter_init data = Inr self"
  shows "entries self = (case p_entries data of None \<Rightarrow> [] | Some l \<Rightarrow> l) \<and>
    (\<forall>e \<in> set (entries self).
       \<exists>tw cn cands. f_tw e = Some tw \<and> f_cn e = Some cn \<and>
         tw_to_zh self tw = Some cands \<and>
         (cn, case f_weight e of None \<Rightarrow> Finite 0 | Some w \<Rightarrow> w) \<in> set cands) \<and>
    (\<forall>k cands. tw_to_zh self k = Some cands \<longrightarrow> cands \<noteq> []) \<and>
    (\<forall>k cands. zh_to_tw self k = Some cands \<longrightarrow> cands \<noteq> [])"
proof -
  let ?es = "case p_entries data of None \<Rightarrow> [] | Some l \<Rightarrow> l"
  from assms obtain s where loop: "init_loop ?es (Map.empty, Map.empty) = Inr s"
    and self: "entries self = ?es" "tw_to_zh self = fst s" "zh_to_tw self = snd s"
    by (auto simp: Converter_init_Inr)
  have "\<exists>tw cn cands. f_tw e = Some tw \<and> f_cn e = Some cn \<and>
         tw_to_zh self tw = Some cands \<and>
         (cn, case f_weight e of None \<Rightarrow> Finite 0 | Some w \<Rightarrow> w) \<in> set cands"
    if "e \<in> set (entries self)" for e
  proof -
    from that self have "e \<in> set ?es" by simp
    from init_loop_adds [OF loop this] obtain tw cn
      where "f_tw e = Some tw" "f_cn e = Some cn"
        and "has_candidate (fst s) tw (cn, case f_weight e of None \<Rightarrow> Finite 0 | Some w \<Rightarrow> w)"
      by blast
    then show ?thesis
      by (auto simp: has_candidate_def self split: option.splits)
  qed
  moreover have "nonempty_lists (fst s) \<and> nonempty_lists (snd s)"
    by (rule init_loop_nonempty [OF loop]) (simp_all add: nonempty_lists_def)
  then have "(\<forall>k cands. tw_to_zh self k = Some cands \<longrightarrow> cands \<noteq> []) \<and>
    (\<forall>k cands. zh_to_tw self k = Some cands \<longrightarrow> cands \<noteq> [])"
    by (auto simp: nonempty_lists_def self)
  ultimately show ?thesis using self(1) by blast
qed

text \<open>
  The theorem at two entries of one source form, the first without a weight: the
  constructor succeeds, and the candidate \<open>(X, 0.0)\<close> is in the non-empty list of \<open>ab\<close>.
\<close>

theorem build_guarantee_witness:
  "\<exists>self.
     Converter_init
       \<lparr>p_dict_version = None,
        p_entries = Some
          [\<lparr>f_tw = Some ''ab'', f_cn = Some ''X'', f_weight = None\<rparr>,
           \<lparr>f_tw = Some ''ab'', f_cn = Some ''Z'', f_weight = Some (Finite 2)\<rparr>]\<rparr> = Inr self \<and>
     entries self =
          [\<lparr>f_tw = Some ''ab'', f_cn = Some ''X'', f_weight = None\<rparr>,
           \<lparr>f_tw = Some ''ab'', f_cn = Some ''Z'', f_weight = Some (Finite 2)\<rparr>] \<and>
     (\<exists>cands. tw_to_zh self ''ab'' = Some cands \<and> (''X'', Finite 0) \<in> set cands \<and> cands \<noteq> []) \<and>
     tw_to_zh self ''ab'' = Some [(''X'', Finite 0), (''Z'', Finite 2)] \<and>
     zh_to_tw self ''X'' = Some [(''ab'', Finite 0)]"
proof -
  let ?es = "[\<lparr>f_tw = Some ''ab'', f_cn = Some ''X'', f_weight = None\<rparr>,
           \<lparr>f_tw = Some ''ab'', f_cn = Some ''Z'', f_weight = Some (Finite 2)\<rparr>]"
  let ?data = "\<lparr>p_dict_version = None, p_entries = Some ?es\<rparr>"
  obtain self where built: "Converter_init ?data = Inr self"
    and fwd: "tw_to_zh self ''ab'' = Some [(''X'', Finite 0), (''Z'', Finite 2)]"
    and bwd: "zh_to_tw self ''X'' = Some [(''ab'', Finite 0)]"
    by (simp add: Converter_init_def init_entry_def Let_def append_candidate_def)
  note g = build_guarantee [OF built]
  from g have es: "entries self = ?es" by simp
  from g es have "\<exists>tw cn cands. f_tw (?es ! 0) = Some tw \<and> f_cn (?es ! 0) = Some cn \<and>
         tw_to_zh self tw = Some cands \<and>
         (cn, case f_weight (?es ! 0) of None \<Rightarrow> Finite 0 | Some w \<Rightarrow> w) \<in> set cands"
    by simp
  then obtain cands where "tw_to_zh self ''ab'' = Some cands" "(''X'', Finite 0) \<in> set cands"
    by auto
  moreover from g this(1) have "cands \<noteq> []" by blast
  ultimately show ?thesis using built es fwd bwd by blast
qed

subsection \<open>No entries\<close>

text \<open>
  Claim C8. When the converter is built from a document whose entry list is absent or
  empty, the conversion of every text in either recognised mode returns the text
  unchanged.
\<close>

theorem no_entries_identity:
  assumes "Converter_init data = Inr self"
    and "p_entries data = None \<or> p_entries data = Some []"
  shows "convert self text ''t2c'' = Inr text \<and> convert self text ''c2t'' = Inr text"
proof -
  from assms have "tw_to_zh self = Map.empty" "zh_to_tw self = Map.empty"
    by (auto simp: Converter_init_Inr)
  moreover have "join (convert_loop text Map.empty (0, [])) = Inr text"
    by (simp add: convert_loop_no_keys join_singletons)
  ultimately show ?thesis
    by (simp add: convert_def dictionary_for_def)
qed

text \<open>The theorem at the empty entry list and the text \<open>abc\<close>.\<close>

theorem no_entries_identity_witness:
  "\<exists>self. Converter_init \<lparr>p_dict_version = Some 3, p_entries = Some []\<rparr> = Inr self \<and>
     convert self ''abc'' ''t2c'' = Inr ''abc'' \<and> convert self ''abc'' ''c2t'' = Inr ''abc''"
proof -
  obtain self :: "char Converter"
    where built: "Converter_init \<lparr>p_dict_version = Some 3, p_entries = Some []\<rparr> = Inr self"
    by (simp add: Converter_init_def)
  from no_entries_identity [OF built, of "''abc''"] built show ?thesis
    by auto
qed

subsection \<open>A key at the position is consumed\<close>

text \<open>
  Claim C9, as the code has it. For a converter that the constructor built, the index of
  a recognised mode, a text and a position inside it: when the weights of the index are
  finite doubles and some candidate substring at the position (the slice of some length
  from \<open>1\<close> to the rest of the text) is a key of the index, the search returns one of
  these substrings with one of the replacements of its list, and the iteration appends
  that replacement and moves the position by the length of the substring, whatever the
  sign of the scores. More generally this happens when some candidate of a key
  substring has a score above \<^verbatim>\<open>float('-inf')\<close>. When no candidate of a key substring
  has such a score, in particular when no candidate substring is a key, the search
  returns no match, and the iteration appends the one character at the position and
  moves by one.
\<close>

theorem match_preferred_to_passthrough:
  assumes "Converter_init data = Inr self"
    and "dictionary_for self mode = Inr d"
    and "pos < length text"
  shows "(finite_weights d \<and>
       (\<exists>n. 1 \<le> n \<and> n \<le> length text - pos \<and> d (take n (drop pos text)) \<noteq> None) \<longrightarrow>
      (\<exists>n cands r w. 1 \<le> n \<and> n \<le> length text - pos \<and>
         d (take n (drop pos text)) = Some cands \<and> (r, w) \<in> set cands \<and>
         find_best_match text pos d = (Some (take n (drop pos text)), Some r, n) \<and>
         convert_body text d (pos, res) = (pos + n, res @ [Some r]))) \<and>
    ((\<exists>n cands r w. 1 \<le> n \<and> n \<le> length text - pos \<and>
         d (take n (drop pos text)) = Some cands \<and> (r, w) \<in> set cands \<and>
         fgt (calculate_weight (take n (drop pos text)) w) NInf) \<longrightarrow>
      (\<exists>n cands r w. 1 \<le> n \<and> n \<le> length text - pos \<and>
         d (take n (drop pos text)) = Some cands \<and> (r, w) \<in> set cands \<and>
         fgt (calculate_weight (take n (drop pos text)) w) NInf \<and>
         find_best_match text pos d = (Some (take n (drop pos text)), Some r, n) \<and>
         convert_body text d (pos, res) = (pos + n, res @ [Some r]))) \<and>
    ((\<forall>n cands r w. 1 \<le> n \<and> n \<le> length text - pos \<and>
         d (take n (drop pos text)) = Some cands \<and> (r, w) \<in> set cands \<longrightarrow>
         \<not> fgt (calculate_weight (take n (drop pos text)) w) NInf) \<longrightarrow>
      find_best_match text pos d = (None, None, 0) \<and>
      convert_body text d (pos, res) = (pos + 1, res @ [Some [text ! pos]]))"
proof (intro conjI impI)
  assume el: "\<exists>n cands r w. 1 \<le> n \<and> n \<le> length text - pos \<and>
         d (take n (drop pos text)) = Some cands \<and> (r, w) \<in> set cands \<and>
         fgt (calculate_weight (take n (drop pos text)) w) NInf"
  then have "\<exists>c \<in> set (scan_candidates text (fst (pos, res)) d). eligible c"
    by (simp only: scan_eligible_iff fst_conv)
  from convert_body_match [OF this]
  show "\<exists>n cands r w. 1 \<le> n \<and> n \<le> length text - pos \<and>
         d (take n (drop pos text)) = Some cands \<and> (r, w) \<in> set cands \<and>
         fgt (calculate_weight (take n (drop pos text)) w) NInf \<and>
         find_best_match text pos d = (Some (take n (drop pos text)), Some r, n) \<and>
         convert_body text d (pos, res) = (pos + n, res @ [Some r])"
    by simp
next
  assume "finite_weights d \<and>
       (\<exists>n. 1 \<le> n \<and> n \<le> length text - pos \<and> d (take n (drop pos text)) \<noteq> None)"
  then obtain n cands where fin: "finite_weights d"
    and n: "1 \<le> n" "n \<le> length text - pos"
    and key: "d (take n (drop pos text)) = Some cands"
    by blast
  from assms(1,2) have "nonempty_lists d"
    using Converter_init_nonempty [OF assms(1)]
    by (auto simp: dictionary_for_def split: if_splits)
  with key have "cands \<noteq> []"
    by (auto simp: nonempty_lists_def)
  then obtain r w where rw: "(r, w) \<in> set cands"
    by (cases cands) auto
  with fin key obtain x where "w = Finite x" "\<bar>x\<bar> \<le> 2 ^ 1024 - 2 ^ 971"
    unfolding finite_weights_def by blast
  then have "fgt (calculate_weight (take n (drop pos text)) w) NInf"
    by (simp add: calculate_weight_eligible)
  with n key rw have "\<exists>n cands r w. 1 \<le> n \<and> n \<le> length text - pos \<and>
         d (take n (drop pos text)) = Some cands \<and> (r, w) \<in> set cands \<and>
         fgt (calculate_weight (take n (drop pos text)) w) NInf"
    by blast
  then have "\<exists>c \<in> set (scan_candidates text (fst (pos, res)) d). eligible c"
    by (simp only: scan_eligible_iff fst_conv)
  from convert_body_match [OF this]
  show "\<exists>n cands r w. 1 \<le> n \<and> n \<le> length text - pos \<and>
         d (take n (drop pos text)) = Some cands \<and> (r, w) \<in> set cands \<and>
         find_best_match text pos d = (Some (take n (drop pos text)), Some r, n) \<and>
         convert_body text d (pos, res) = (pos + n, res @ [Some r])"
    by auto
next
  assume none: "\<forall>n cands r w. 1 \<le> n \<and> n \<le> length text - pos \<and>
         d (take n (drop pos text)) = Some cands \<and> (r, w) \<in> set cands \<longrightarrow>
         \<not> fgt (calculate_weight (take n (drop pos text)) w) NInf"
  have "\<not> (\<exists>c \<in> set (scan_candidates text pos d). eligible c)"
    unfolding scan_eligible_iff using none by blast
  then have no: "\<forall>c \<in> set (scan_candidates text pos d). \<not> eligible c"
    by blast
  then show "find_best_match text pos d = (None, None, 0)"
    by (rule find_best_match_empty)
  from no have "\<forall>c \<in> set (scan_candidates text (fst (pos, res)) d). \<not> eligible c"
    by simp
  from convert_body_passthrough [OF this]
  show "convert_body text d (pos, res) = (pos + 1, res @ [Some [text ! pos]])"
    by simp
qed

text \<open>
  The theorem at the entry \<open>a\<close> to \<open>Y\<close> of weight \<open>-5.0\<close>, whose score is negative: at
  position \<open>0\<close> of \<open>ab\<close> the match is consumed, at position \<open>1\<close>, where no substring is a
  key, the \<open>b\<close> is passed through. And at the two entries \<open>a\<close> to \<open>Y\<close> of weight
  \<^verbatim>\<open>float('-inf')\<close> and \<open>a\<close> to \<open>Z\<close> of weight \<open>-5.0\<close>: the second candidate is consumed.
\<close>

theorem match_preferred_to_passthrough_witness:
  "\<exists>self self'.
     Converter_init
       \<lparr>p_dict_version = Some 1,
        p_entries = Some
          [\<lparr>f_tw = Some ''a'', f_cn = Some ''Y'', f_weight = Some (Finite (- 5))\<rparr>]\<rparr>
       = Inr self \<and>
     tw_to_zh self = [''a'' \<mapsto> [(''Y'', Finite (- 5))]] \<and>
     finite_weights (tw_to_zh self) \<and>
     calculate_weight ''a'' (Finite (- 5)) = Finite (- (2758454771764429 / 2 ^ 49)) \<and>
     convert_body ''ab'' (tw_to_zh self) (0, []) = (1, [Some ''Y'']) \<and>
     convert_body ''ab'' (tw_to_zh self) (1, [Some ''Y'']) = (2, [Some ''Y'', Some ''b'']) \<and>
     Converter_init
       \<lparr>p_dict_version = Some 1,
        p_entries = Some
          [\<lparr>f_tw = Some ''a'', f_cn = Some ''Y'', f_weight = Some NInf\<rparr>,
           \<lparr>f_tw = Some ''a'', f_cn = Some ''Z'', f_weight = Some (Finite (- 5))\<rparr>]\<rparr>
       = Inr self' \<and>
     tw_to_zh self' = [''a'' \<mapsto> [(''Y'', NInf), (''Z'', Finite (- 5))]] \<and>
     convert_body ''a'' (tw_to_zh self') (0, []) = (1, [Some ''Z''])"
proof -
  let ?d = "[''a'' \<mapsto> [(''Y'', Finite (- 5))]]"
  let ?d' = "[''a'' \<mapsto> [(''Y'', NInf), (''Z'', Finite (- 5))]]"
  have neg: "calculate_weight ''a'' (Finite (- 5)) = Finite (- (2758454771764429 / 2 ^ 49))"
    by (simp add: float_eval)
  have minus: "calculate_weight ''a'' NInf = NInf"
    by (simp add: float_eval)
  obtain self where built: "Converter_init
       \<lparr>p_dict_version = Some 1,
        p_entries = Some
          [\<lparr>f_tw = Some ''a'', f_cn = Some ''Y'', f_weight = Some (Finite (- 5))\<rparr>]\<rparr>
       = Inr self"
    and fwd: "tw_to_zh self = ?d"
    by (simp add: Converter_init_def init_entry_def append_candidate_def Let_def)
  have sel: "dictionary_for self ''t2c'' = Inr ?d"
    by (simp add: dictionary_for_def fwd)
  have fin: "finite_weights ?d"
    by (auto simp: finite_weights_def split: if_splits)
  note at0 = match_preferred_to_passthrough [OF built sel, of 0 "''ab''" "[]"]
  note at1 = match_preferred_to_passthrough [OF built sel, of 1 "''ab''" "[Some ''Y'']"]
  have "\<exists>n. 1 \<le> n \<and> n \<le> length ''ab'' - 0 \<and> ?d (take n (drop 0 ''ab'')) \<noteq> None"
    by (intro exI [of _ 1]) simp
  with at0 fin obtain n cands r w where n: "1 \<le> n" "n \<le> length ''ab'' - 0"
    and c: "?d (take n (drop 0 ''ab'')) = Some cands" "(r, w) \<in> set cands"
    and b0: "convert_body ''ab'' ?d (0, []) = (0 + n, [] @ [Some r])"
    by auto
  from n have "n = 1 \<or> n = 2" by auto
  with c have "n = 1 \<and> r = ''Y''"
    by (auto split: if_splits)
  with b0 have body0: "convert_body ''ab'' ?d (0, []) = (1, [Some ''Y''])"
    by simp
  have "\<forall>n cands r w. 1 \<le> n \<and> n \<le> length ''ab'' - 1 \<and>
      ?d (take n (drop 1 ''ab'')) = Some cands \<and> (r, w) \<in> set cands \<longrightarrow>
      \<not> fgt (calculate_weight (take n (drop 1 ''ab'')) w) NInf"
    by auto
  with at1 have body1: "convert_body ''ab'' ?d (1, [Some ''Y'']) = (2, [Some ''Y'', Some ''b''])"
    by simp
  obtain self' where built': "Converter_init
       \<lparr>p_dict_version = Some 1,
        p_entries = Some
          [\<lparr>f_tw = Some ''a'', f_cn = Some ''Y'', f_weight = Some NInf\<rparr>,
           \<lparr>f_tw = Some ''a'', f_cn = Some ''Z'', f_weight = Some (Finite (- 5))\<rparr>]\<rparr>
       = Inr self'"
    and fwd': "tw_to_zh self' = ?d'"
    by (simp add: Converter_init_def init_entry_def append_candidate_def Let_def)
  have sel': "dictionary_for self' ''t2c'' = Inr ?d'"
    by (simp add: dictionary_for_def fwd')
  note at = match_preferred_to_passthrough [OF built' sel', of 0 "''a''" "[]"]
  have "\<exists>n cands r w. 1 \<le> n \<and> n \<le> length ''a'' - 0 \<and>
      ?d' (take n (drop 0 ''a'')) = Some cands \<and> (r, w) \<in> set cands \<and>
      fgt (calculate_weight (take n (drop 0 ''a'')) w) NInf"
    by (intro exI [of _ 1] exI [of _ "[(''Y'', NInf), (''Z'', Finite (- 5))]"]
        exI [of _ "''Z''"] exI [of _ "Finite (- 5)"]) (simp add: neg)
  with at obtain m cands' r' w' where m: "1 \<le> m" "m \<le> length ''a'' - 0"
    and c': "?d' (take m (drop 0 ''a'')) = Some cands'" "(r', w') \<in> set cands'"
    and el: "fgt (calculate_weight (take m (drop 0 ''a'')) w') NInf"
    and b: "convert_body ''a'' ?d' (0, []) = (0 + m, [] @ [Some r'])"
    by blast
  from m have "m = 1" by simp
  with c' el have "r' = ''Z''"
    by (auto simp: minus)
  with b \<open>m = 1\<close> have body: "convert_body ''a'' ?d' (0, []) = (1, [Some ''Z''])"
    by simp
  from built fwd fin neg body0 body1 built' fwd' body show ?thesis
    by (intro exI [of _ self] exI [of _ self']) simp
qed

text \<open>
  As the claim is stated, for every index, it fails: \<^verbatim>\<open>json.load\<close> reads
  \<^verbatim>\<open>-Infinity\<close> and \<^verbatim>\<open>NaN\<close> as floats, a score of \<^verbatim>\<open>float('-inf')\<close> or of not a number
  does not compare greater than the initial best weight, and the character is passed
  through although it is a key of the index.
\<close>

theorem key_not_consumed_counterexample:
  "\<exists>self self'.
     Converter_init
       \<lparr>p_dict_version = Some 1,
        p_entries = Some [\<lparr>f_tw = Some ''a'', f_cn = Some ''Y'', f_weight = Some NInf\<rparr>]\<rparr>
       = Inr self \<and>
     tw_to_zh self ''a'' = Some [(''Y'', NInf)] \<and>
     calculate_weight ''a'' NInf = NInf \<and>
     find_best_match ''a'' 0 (tw_to_zh self) = (None, None, 0) \<and>
     convert_body ''a'' (tw_to_zh self) (0, []) = (1, [Some ''a'']) \<and>
     convert self ''a'' ''t2c'' = Inr ''a'' \<and>
     Converter_init
       \<lparr>p_dict_version = Some 1,
        p_entries = Some [\<lparr>f_tw = Some ''a'', f_cn = Some ''Y'', f_weight = Some NaN\<rparr>]\<rparr>
       = Inr self' \<and>
     tw_to_zh self' ''a'' = Some [(''Y'', NaN)] \<and>
     calculate_weight ''a'' NaN = NaN \<and>
     find_best_match ''a'' 0 (tw_to_zh self') = (None, None, 0) \<and>
     convert self' ''a'' ''t2c'' = Inr ''a''"
proof -
  have minus: "calculate_weight ''a'' NInf = NInf"
    by (simp add: float_eval)
  have nan: "calculate_weight ''a'' NaN = NaN"
    by (simp add: float_eval)
  show ?thesis
    by (simp add: Converter_init_def init_entry_def append_candidate_def minus nan
        find_best_match_def initial_best_def convert_def dictionary_for_def
        convert_body_def convert_loop.simps upt_rec Let_def)
qed

subsection \<open>An entry whose source form is empty\<close>

text \<open>
  Claim C10, as the code has it. For a converter that the constructor built: an entry
  whose source form is the empty string is stored in the forward index, its target form
  and weight in the list of the empty key; the search never returns the empty string as
  its match, in any text at any position; and the forward conversion of every text is
  the one of the converter built from the same document without the entries of empty
  source form. (In the reverse direction such an entry is a candidate under its target
  form like any other.)
\<close>

theorem empty_source_never_matched:
  assumes "Converter_init data = Inr self"
  shows "(\<forall>e \<in> set (entries self). f_tw e = Some [] \<longrightarrow>
       (\<exists>cn cands. f_cn e = Some cn \<and> tw_to_zh self [] = Some cands \<and>
          (cn, case f_weight e of None \<Rightarrow> Finite 0 | Some w \<Rightarrow> w) \<in> set cands)) \<and>
    (\<forall>text pos. fst (find_best_match text pos (tw_to_zh self)) \<noteq> Some []) \<and>
    (\<exists>self'.
       Converter_init
         (data\<lparr>p_entries := Some (filter (\<lambda>e. f_tw e \<noteq> Some []) (entries self))\<rparr>) = Inr self' \<and>
       (\<forall>text. convert self' text ''t2c'' = convert self text ''t2c''))"
proof (intro conjI)
  let ?es = "case p_entries data of None \<Rightarrow> [] | Some l \<Rightarrow> l"
  from assms obtain s where loop: "init_loop ?es (Map.empty, Map.empty) = Inr s"
    and self: "entries self = ?es" "tw_to_zh self = fst s" "zh_to_tw self = snd s"
    by (auto simp: Converter_init_Inr)
  show "\<forall>e \<in> set (entries self). f_tw e = Some [] \<longrightarrow>
       (\<exists>cn cands. f_cn e = Some cn \<and> tw_to_zh self [] = Some cands \<and>
          (cn, case f_weight e of None \<Rightarrow> Finite 0 | Some w \<Rightarrow> w) \<in> set cands)"
  proof (intro ballI impI)
    fix e assume "e \<in> set (entries self)" and empty: "f_tw e = Some []"
    then have "e \<in> set ?es" by (simp add: self)
    from init_loop_adds [OF loop this] empty obtain cn
      where "f_cn e = Some cn"
        and "has_candidate (fst s) [] (cn, case f_weight e of None \<Rightarrow> Finite 0 | Some w \<Rightarrow> w)"
      by auto
    then show "\<exists>cn cands. f_cn e = Some cn \<and> tw_to_zh self [] = Some cands \<and>
          (cn, case f_weight e of None \<Rightarrow> Finite 0 | Some w \<Rightarrow> w) \<in> set cands"
      by (auto simp: has_candidate_def self split: option.splits)
  qed
  show "\<forall>text pos. fst (find_best_match text pos (tw_to_zh self)) \<noteq> Some []"
  proof (intro allI)
    fix text' :: "'a str" and pos
    show "fst (find_best_match text' pos (tw_to_zh self)) \<noteq> Some []"
    proof (cases "\<exists>c \<in> set (scan_candidates text' pos (tw_to_zh self)). eligible c")
      case False
      then have "\<forall>c \<in> set (scan_candidates text' pos (tw_to_zh self)). \<not> eligible c"
        by blast
      then show ?thesis by (simp add: find_best_match_empty)
    next
      case True
      from find_best_match_found [OF this] obtain n r
        where n: "1 \<le> n" "n \<le> length text' - pos"
          and found: "find_best_match text' pos (tw_to_zh self) =
                      (Some (take n (drop pos text')), Some r, n)"
        by blast
      from n have "length (take n (drop pos text')) = n" by simp
      with n(1) have "take n (drop pos text') \<noteq> []" by auto
      with found show ?thesis by simp
    qed
  qed
  from init_loop_without_empty_source [OF loop, of "(Map.empty, Map.empty)"]
  obtain t where t: "init_loop (filter (\<lambda>e. f_tw e \<noteq> Some []) ?es) (Map.empty, Map.empty) = Inr t"
    and agree: "agree_off_empty (fst s) (fst t)"
    by (auto simp: agree_off_empty_def)
  let ?data' = "data\<lparr>p_entries := Some (filter (\<lambda>e. f_tw e \<noteq> Some []) (entries self))\<rparr>"
  let ?self' = "\<lparr>dict_version = (case p_dict_version data of None \<Rightarrow> 0 | Some v \<Rightarrow> v),
              entries = filter (\<lambda>e. f_tw e \<noteq> Some []) (entries self),
              tw_to_zh = fst t, zh_to_tw = snd t\<rparr>"
  from t have built: "Converter_init ?data' = Inr ?self'"
    by (simp add: Converter_init_Inr self)
  have "convert ?self' text' ''t2c'' = convert self text' ''t2c''" for text'
    using convert_loop_agree [OF agree, of text' "(0, [])"]
    by (simp add: convert_def dictionary_for_def self)
  with built show "\<exists>self'. Converter_init ?data' = Inr self' \<and>
       (\<forall>text. convert self' text ''t2c'' = convert self text ''t2c'')"
    by blast
qed

text \<open>
  The theorem at two entries, the first of empty source form: it is under the empty
  key, and the forward conversion of \<open>xa\<close> is \<open>xY\<close> with and without it.
\<close>

theorem empty_source_never_matched_witness:
  "\<exists>self self'.
     Converter_init
       \<lparr>p_dict_version = Some 1,
        p_entries = Some
          [\<lparr>f_tw = Some [], f_cn = Some ''x'', f_weight = None\<rparr>,
           \<lparr>f_tw = Some ''a'', f_cn = Some ''Y'', f_weight = Some (Finite 1)\<rparr>]\<rparr> = Inr self \<and>
     tw_to_zh self [] = Some [(''x'', Finite 0)] \<and>
     (\<exists>cands. tw_to_zh self [] = Some cands \<and> (''x'', Finite 0) \<in> set cands) \<and>
     fst (find_best_match ''xa'' 0 (tw_to_zh self)) \<noteq> Some [] \<and>
     Converter_init
       \<lparr>p_dict_version = Some 1,
        p_entries = Some [\<lparr>f_tw = Some ''a'', f_cn = Some ''Y'', f_weight = Some (Finite 1)\<rparr>]\<rparr>
       = Inr self' \<and>
     convert self ''xa'' ''t2c'' = Inr ''xY'' \<and>
     convert self' ''xa'' ''t2c'' = Inr ''xY''"
proof -
  let ?e0 = "\<lparr>f_tw = Some [], f_cn = Some ''x'', f_weight = None :: pyfloat option\<rparr>"
  let ?e1 = "\<lparr>f_tw = Some ''a'', f_cn = Some ''Y'', f_weight = Some (Finite 1)\<rparr>"
  let ?data = "\<lparr>p_dict_version = Some 1, p_entries = Some [?e0, ?e1]\<rparr>"
  obtain self where built: "Converter_init ?data = Inr self"
    and es: "entries self = [?e0, ?e1]"
    and key: "tw_to_zh self [] = Some [(''x'', Finite 0)]"
    and out: "convert self ''xa'' ''t2c'' = Inr ''xY''"
    by (simp add: Converter_init_def init_entry_def Let_def append_candidate_def
        float_eval find_best_match_def initial_best_def convert_def
        dictionary_for_def convert_body_def convert_loop.simps upt_rec)
  note inst = empty_source_never_matched [OF built]
  from inst have never: "fst (find_best_match ''xa'' 0 (tw_to_zh self)) \<noteq> Some []"
    by blast
  from inst es have "\<exists>cn cands. f_cn ?e0 = Some cn \<and> tw_to_zh self [] = Some cands \<and>
      (cn, case f_weight ?e0 of None \<Rightarrow> Finite 0 | Some w \<Rightarrow> w) \<in> set cands"
    by simp
  then have stored: "\<exists>cands. tw_to_zh self [] = Some cands \<and> (''x'', Finite 0) \<in> set cands"
    by simp
  from inst obtain self'
    where "Converter_init
         (?data\<lparr>p_entries := Some (filter (\<lambda>e. f_tw e \<noteq> Some []) (entries self))\<rparr>) = Inr self'"
      and same: "convert self' ''xa'' ''t2c'' = convert self ''xa'' ''t2c''"
    by blast
  then have built': "Converter_init \<lparr>p_dict_version = Some 1, p_entries = Some [?e1]\<rparr> = Inr self'"
    by (simp add: es)
  from built key stored never built' out same show ?thesis
    by (intro exI [of _ self] exI [of _ self']) simp
qed

text \<open>
  As the claim is stated, for any conversion, it fails: the entry of empty source form
  and target form \<open>x\<close> is under the key \<open>x\<close> of the reverse index, so the reverse
  conversion of \<open>x\<close> is the empty string, where without the entry it is \<open>x\<close>.
\<close>

theorem empty_source_counterexample:
  "\<exists>self self'.
     Converter_init
       \<lparr>p_dict_version = Some 1,
        p_entries = Some [\<lparr>f_tw = Some [], f_cn = Some ''x'', f_weight = None\<rparr>]\<rparr>
       = Inr self \<and>
     Converter_init \<lparr>p_dict_version = Some 1, p_entries = Some []\<rparr> = Inr self' \<and>
     tw_to_zh self [] = Some [(''x'', Finite 0)] \<and>
     zh_to_tw self ''x'' = Some [([], Finite 0)] \<and>
     find_best_match ''x'' 0 (zh_to_tw self) = (Some ''x'', Some [], 1) \<and>
     convert self ''x'' ''c2t'' = Inr [] \<and>
     convert self' ''x'' ''c2t'' = Inr ''x'' \<and>
     convert self ''x'' ''c2t'' \<noteq> convert self' ''x'' ''c2t''"
  by (simp add: Converter_init_def init_entry_def Let_def append_candidate_def
      float_eval find_best_match_def initial_best_def convert_def
      dictionary_for_def convert_body_def convert_loop.simps upt_rec)

end
